theory Spec2Isabelle
  imports Main "HOL-Library.Word"
begin

section \<open>Constants and slots\<close>

text \<open>
  \<^verbatim>\<open>constexpr size_t PAGE_SIZE = 4096; constexpr size_t MAX_SLOTS = 512;\<close>
  \<^verbatim>\<open>constexpr uint16_t INVALID_VALUE = std::numeric_limits<uint16_t>::max();\<close>
  Quantities of type \<^verbatim>\<open>size_t\<close> are natural numbers here: none of them comes near
  \<open>2 ^ 64\<close>. The two \<^verbatim>\<open>uint16_t\<close> members of a slot are 16-bit words, and a store
  into them truncates as the C++ conversion does.
\<close>

definition PAGE_SIZE :: nat where
  "PAGE_SIZE = 4096"

definition MAX_SLOTS :: nat where
  "MAX_SLOTS = 512"

definition INVALID_VALUE :: "16 word" where
  "INVALID_VALUE = - 1"

text \<open>
  \<^verbatim>\<open>struct Slot { bool empty = true; uint16_t offset; uint16_t length; };\<close>
  With two-byte alignment of \<^verbatim>\<open>uint16_t\<close> the structure takes six bytes.
\<close>

record Slot =
  empty :: bool
  offset :: "16 word"
  length :: "16 word"

definition sizeof_Slot :: nat where
  "sizeof_Slot = 6"

subsection \<open>The page\<close>

text \<open>
  \<^verbatim>\<open>std::unique_ptr<char[]> page_data\<close> is a buffer of \<open>PAGE_SIZE\<close> bytes, zeroed when it
  is made, and \<^verbatim>\<open>reinterpret_cast<Slot*>(page_data.get())\<close> lays the slot directory over
  its first \<open>sizeof_Slot * MAX_SLOTS\<close> bytes. The model keeps the directory as an array of
  slots of its own (a function of the index) next to the bytes (a function of the
  address). It stays exact as long as every byte copy stays inside the rest of the buffer
  and every slot access inside the directory; an access that does not is a \<open>fault\<close>, and
  the operation stops there.
\<close>

datatype fault = OutsideDataRegion nat nat | SlotIndexOutOfRange nat

record SlottedPage =
  page_data :: "nat \<Rightarrow> char"
  slot_array :: "nat \<Rightarrow> Slot"
  metadata_size :: nat

section \<open>Fields and tuples\<close>

text \<open>\<^verbatim>\<open>class Field { int value; }\<close>, a 32-bit signed integer read with \<open>sint\<close>.\<close>

datatype Field = Field (getValue: "32 word")

datatype Tuple = Tuple (fields: "Field list")

definition addField :: "Tuple \<Rightarrow> Field \<Rightarrow> Tuple" where
  "addField t f = Tuple (fields t @ [f])"

definition getSize :: "Tuple \<Rightarrow> nat" where
  "getSize t = 4 * List.length (fields t)"

subsection \<open>Stream insertion of an \<^verbatim>\<open>int\<close>\<close>

definition digit_char :: "nat \<Rightarrow> char" where
  "digit_char d = char_of (48 + d)"

function str_of_nat :: "nat \<Rightarrow> string" where
  "str_of_nat n = (if n < 10 then [digit_char n]
                   else str_of_nat (n div 10) @ [digit_char (n mod 10)])"
  by pat_completeness auto
termination
  by (relation "measure (\<lambda>n. n)") auto

declare str_of_nat.simps [simp del]

text \<open>\<^verbatim>\<open>buffer << int\<close>: decimal digits, a minus sign in front of a negative value.\<close>

definition put_int :: "32 word \<Rightarrow> string" where
  "put_int v = (if sint v < 0 then CHR ''-'' # str_of_nat (nat (- sint v))
                else str_of_nat (nat (sint v)))"

text \<open>\<^verbatim>\<open>for (field : fields) buffer << field->getValue() << " ";\<close>\<close>

fun serialize_fields :: "Field list \<Rightarrow> string" where
  "serialize_fields [] = []"
| "serialize_fields (f # fs) = put_int (getValue f) @ CHR '' '' # serialize_fields fs"

definition serialize :: "Tuple \<Rightarrow> string" where
  "serialize t = serialize_fields (fields t)"

subsection \<open>Stream extraction of an \<^verbatim>\<open>int\<close>\<close>

definition isspace :: "char \<Rightarrow> bool" where
  "isspace c = (c = CHR '' '' \<or> ((9::nat) \<le> of_char c \<and> (of_char c :: nat) \<le> 13))"

definition isdigit :: "char \<Rightarrow> bool" where
  "isdigit c = ((48::nat) \<le> of_char c \<and> (of_char c :: nat) \<le> 57)"

definition digit_val :: "char \<Rightarrow> nat" where
  "digit_val c = of_char c - 48"

definition digits_val :: "string \<Rightarrow> nat" where
  "digits_val ds = foldl (\<lambda>a c. 10 * a + digit_val c) 0 ds"

text \<open>
  \<^verbatim>\<open>ss >> value\<close> with the default flags: white space is skipped, an optional sign and
  a non-empty run of decimal digits are read, and the extraction fails (the stream turns
  false) when there is no digit or the number does not fit an \<^verbatim>\<open>int\<close>. On success the
  rest of the input is returned with the value.
\<close>

definition extract_int :: "string \<Rightarrow> (32 word \<times> string) option" where
  "extract_int s =
     (let s1 = dropWhile isspace s;
          neg = (s1 \<noteq> [] \<and> hd s1 = CHR ''-'');
          s2 = (if s1 \<noteq> [] \<and> (hd s1 = CHR ''-'' \<or> hd s1 = CHR ''+'') then tl s1 else s1);
          ds = takeWhile isdigit s2;
          v = (if neg then - int (digits_val ds) else int (digits_val ds))
      in if ds = [] then None
         else if v < - (2 ^ 31) \<or> 2 ^ 31 \<le> v then None
         else Some (word_of_int v, dropWhile isdigit s2))"

lemma extract_int_shorter:
  "extract_int s = Some (v, r) \<Longrightarrow> List.length r < List.length s"
proof -
  assume a: "extract_int s = Some (v, r)"
  define s1 where "s1 = dropWhile isspace s"
  define s2 where "s2 = (if s1 \<noteq> [] \<and> (hd s1 = CHR ''-'' \<or> hd s1 = CHR ''+'') then tl s1 else s1)"
  from a have ne: "takeWhile isdigit s2 \<noteq> []" and r: "r = dropWhile isdigit s2"
    by (auto simp: extract_int_def Let_def s1_def s2_def split: if_splits)
  have "List.length (takeWhile isdigit s2) + List.length (dropWhile isdigit s2) = List.length s2"
    by (metis length_append takeWhile_dropWhile_id)
  with ne r have "List.length r < List.length s2"
    by (cases "takeWhile isdigit s2") auto
  moreover have "List.length s2 \<le> List.length s1"
    by (simp add: s2_def)
  moreover have "List.length s1 \<le> List.length s"
    by (simp add: s1_def length_dropWhile_le)
  ultimately show ?thesis by linarith
qed

text \<open>\<^verbatim>\<open>while (ss >> value) tuple->addField(...)\<close>: fields until the first failed extraction.\<close>

function deserialize_fields :: "string \<Rightarrow> Field list" where
  "deserialize_fields s =
     (case extract_int s of
        None \<Rightarrow> []
      | Some (v, r) \<Rightarrow> Field v # deserialize_fields r)"
  by pat_completeness auto
termination
  by (relation "measure List.length") (auto dest: extract_int_shorter)

declare deserialize_fields.simps [simp del]

definition deserialize :: "string \<Rightarrow> Tuple" where
  "deserialize s = Tuple (deserialize_fields s)"

section \<open>Operations on a slotted page\<close>

definition directory_bytes :: nat where
  "directory_bytes = sizeof_Slot * MAX_SLOTS"

text \<open>The bytes \<open>[a, a + n)\<close> lie behind the directory and inside the buffer; no byte, no demand.\<close>

definition in_data_region :: "nat \<Rightarrow> nat \<Rightarrow> bool" where
  "in_data_region a n = (n = 0 \<or> (directory_bytes \<le> a \<and> a + n \<le> PAGE_SIZE))"

text \<open>\<^verbatim>\<open>memcpy\<close>/\<^verbatim>\<open>memmove\<close> of \<open>n\<close> bytes from \<open>src + s\<close> to \<open>dst + d\<close>; the source is read as it was
  before the copy, so overlapping ranges are handled as \<^verbatim>\<open>memmove\<close> does.\<close>

definition copy_bytes :: "(nat \<Rightarrow> char) \<Rightarrow> nat \<Rightarrow> (nat \<Rightarrow> char) \<Rightarrow> nat \<Rightarrow> nat \<Rightarrow> (nat \<Rightarrow> char)" where
  "copy_bytes dst d src s n = (\<lambda>a. if d \<le> a \<and> a < d + n then src (s + (a - d)) else dst a)"

text \<open>
  \<^verbatim>\<open>serialized_tuple.c_str()\<close>: the characters, the terminating zero, and then whatever
  the memory behind the string holds, which \<^verbatim>\<open>memcpy\<close> reads when \<open>tuple_size\<close> is larger
  than the string. Those bytes are the parameter \<open>beyond\<close>.
\<close>

definition c_str :: "string \<Rightarrow> (nat \<Rightarrow> char) \<Rightarrow> nat \<Rightarrow> char" where
  "c_str s beyond k =
     (if k < List.length s then s ! k
      else if k = List.length s then CHR 0x00
      else beyond (k - List.length s - 1))"

text \<open>\<^verbatim>\<open>std::make_unique<char[]>(PAGE_SIZE)\<close> value-initialises the buffer: all bytes zero.\<close>

definition zeroed :: "nat \<Rightarrow> char" where
  "zeroed = (\<lambda>_. CHR 0x00)"

text \<open>The constructor: every slot empty, offset and length \<open>INVALID_VALUE\<close>.\<close>

definition SlottedPage_init :: SlottedPage where
  "SlottedPage_init =
     \<lparr> page_data = zeroed,
       slot_array = (\<lambda>_. \<lparr> empty = True, offset = INVALID_VALUE, length = INVALID_VALUE \<rparr>),
       metadata_size = sizeof_Slot * MAX_SLOTS \<rparr>"

text \<open>\<^verbatim>\<open>(i == 0) ? metadata_size : slot_array[i - 1].offset + slot_array[i - 1].length\<close>\<close>

definition insert_offset :: "SlottedPage \<Rightarrow> nat \<Rightarrow> nat" where
  "insert_offset p i =
     (if i = 0 then metadata_size p
      else unat (offset (slot_array p (i - 1))) + unat (length (slot_array p (i - 1))))"

text \<open>The body of \<^verbatim>\<open>if (slot_array[i].empty) { ... }\<close> in \<^verbatim>\<open>addTuple\<close>; the page is returned
  with the result.\<close>

definition addTuple_at ::
  "SlottedPage \<Rightarrow> Tuple \<Rightarrow> (nat \<Rightarrow> char) \<Rightarrow> nat \<Rightarrow> fault + (bool \<times> SlottedPage)" where
  "addTuple_at p t beyond i =
     (let off = insert_offset p i; tuple_size = getSize t in
      if off + tuple_size \<ge> PAGE_SIZE then Inr (False, p)
      else if \<not> in_data_region off tuple_size then Inl (OutsideDataRegion off tuple_size)
      else Inr (True,
        p\<lparr> page_data := copy_bytes (page_data p) off (c_str (serialize t) beyond) 0 tuple_size,
           slot_array := (slot_array p)
             (i := \<lparr> empty = False, offset = of_nat off, length = of_nat tuple_size \<rparr>) \<rparr>))"

text \<open>The loop of \<^verbatim>\<open>addTuple\<close> from index \<open>i\<close> on.\<close>

function addTuple_loop ::
  "SlottedPage \<Rightarrow> Tuple \<Rightarrow> (nat \<Rightarrow> char) \<Rightarrow> nat \<Rightarrow> fault + (bool \<times> SlottedPage)" where
  "addTuple_loop p t beyond i =
     (if i < MAX_SLOTS then
        (if empty (slot_array p i) then addTuple_at p t beyond i
         else addTuple_loop p t beyond (Suc i))
      else Inr (False, p))"
  by pat_completeness auto
termination
  by (relation "measure (\<lambda>(p, t, b, i). MAX_SLOTS - i)") auto

declare addTuple_loop.simps [simp del]

definition addTuple :: "SlottedPage \<Rightarrow> Tuple \<Rightarrow> (nat \<Rightarrow> char) \<Rightarrow> fault + (bool \<times> SlottedPage)" where
  "addTuple p t beyond = addTuple_loop p t beyond 0"

definition deleteTuple :: "SlottedPage \<Rightarrow> nat \<Rightarrow> SlottedPage" where
  "deleteTuple p index =
     (if index < MAX_SLOTS \<and> \<not> empty (slot_array p index)
      then p\<lparr> slot_array := (slot_array p)(index := (slot_array p index)\<lparr> empty := True \<rparr>) \<rparr>
      else p)"

text \<open>The body of \<^verbatim>\<open>if (old_offset != new_offset) { ... }\<close> in \<^verbatim>\<open>compactPage\<close>.\<close>

definition compact_slot :: "SlottedPage \<Rightarrow> nat \<Rightarrow> nat \<Rightarrow> fault + SlottedPage" where
  "compact_slot p new_offset i =
     (let old_offset = offset (slot_array p i); len = length (slot_array p i) in
      if unat old_offset \<noteq> new_offset then
        (if \<not> in_data_region new_offset (unat len)
         then Inl (OutsideDataRegion new_offset (unat len))
         else if \<not> in_data_region (unat old_offset) (unat len)
         then Inl (OutsideDataRegion (unat old_offset) (unat len))
         else Inr (p\<lparr> page_data := copy_bytes (page_data p) new_offset (page_data p)
                                      (unat old_offset) (unat len),
                      slot_array := (slot_array p)
                        (i := (slot_array p i)\<lparr> offset := of_nat new_offset \<rparr>) \<rparr>))
      else Inr p)"

text \<open>The loop of \<^verbatim>\<open>compactPage\<close>, with the running \<open>new_offset\<close>.\<close>

function compact_loop :: "SlottedPage \<Rightarrow> nat \<Rightarrow> nat \<Rightarrow> fault + SlottedPage" where
  "compact_loop p new_offset i =
     (if i < MAX_SLOTS then
        (if \<not> empty (slot_array p i) then
           (case compact_slot p new_offset i of
              Inl e \<Rightarrow> Inl e
            | Inr p' \<Rightarrow>
                compact_loop p' (new_offset + unat (length (slot_array p i))) (Suc i))
         else compact_loop p new_offset (Suc i))
      else Inr p)"
  by pat_completeness auto
termination
  by (relation "measure (\<lambda>(p, n, i). MAX_SLOTS - i)") auto

declare compact_loop.simps [simp del]

definition compactPage :: "SlottedPage \<Rightarrow> fault + SlottedPage" where
  "compactPage p = compact_loop p (metadata_size p) 0"

text \<open>
  \<^verbatim>\<open>std::string(tuple_data, slot_array[i].length)\<close> and its deserialisation: what \<^verbatim>\<open>print\<close>
  shows for slot \<open>i\<close>.
\<close>

definition read_tuple :: "SlottedPage \<Rightarrow> nat \<Rightarrow> fault + Tuple" where
  "read_tuple p i =
     (let off = unat (offset (slot_array p i)); len = unat (length (slot_array p i)) in
      if \<not> in_data_region off len then Inl (OutsideDataRegion off len)
      else Inr (deserialize (map (page_data p) [off ..< off + len])))"

text \<open>\<^verbatim>\<open>print\<close> writes one line \<^verbatim>\<open>Slot i: v1 v2 ...\<close> per occupied slot; the model returns the
  lines as pairs of the slot index and the tuple printed.\<close>

function print_loop :: "SlottedPage \<Rightarrow> nat \<Rightarrow> fault + (nat \<times> Tuple) list" where
  "print_loop p i =
     (if i < MAX_SLOTS then
        (if \<not> empty (slot_array p i) then
           (case read_tuple p i of
              Inl e \<Rightarrow> Inl e
            | Inr t \<Rightarrow>
                (case print_loop p (Suc i) of
                   Inl e \<Rightarrow> Inl e
                 | Inr out \<Rightarrow> Inr ((i, t) # out)))
         else print_loop p (Suc i))
      else Inr [])"
  by pat_completeness auto
termination
  by (relation "measure (\<lambda>(p, i). MAX_SLOTS - i)") auto

declare print_loop.simps [simp del]

definition print :: "SlottedPage \<Rightarrow> fault + (nat \<times> Tuple) list" where
  "print p = print_loop p 0"

section \<open>The page store and the move between pages\<close>

text \<open>
  \<^verbatim>\<open>std::unordered_map<uint16_t, SlottedPage> pages\<close>; \<^verbatim>\<open>load\<close> is \<^verbatim>\<open>pages[page_id]\<close>, which
  makes a fresh page for an identifier not seen before. A reference \<^verbatim>\<open>SlottedPage&\<close>
  into the map is its key, and \<open>page_at\<close> reads through it, so that the two references of
  \<^verbatim>\<open>moveTupleAcrossPages\<close> denote one page when the two identifiers are equal.
\<close>

type_synonym StorageManager = "16 word \<rightharpoonup> SlottedPage"

definition load :: "StorageManager \<Rightarrow> 16 word \<Rightarrow> StorageManager" where
  "load sm page_id =
     (case sm page_id of None \<Rightarrow> sm(page_id \<mapsto> SlottedPage_init) | Some p \<Rightarrow> sm)"

definition page_at :: "StorageManager \<Rightarrow> 16 word \<Rightarrow> SlottedPage" where
  "page_at sm page_id = (case sm page_id of None \<Rightarrow> SlottedPage_init | Some p \<Rightarrow> p)"

text \<open>\<^verbatim>\<open>for (; j < MAX_SLOTS; j++) if (to_slots[j].empty) break;\<close> gives the final \<open>j\<close>.\<close>

function find_empty :: "(nat \<Rightarrow> Slot) \<Rightarrow> nat \<Rightarrow> nat" where
  "find_empty slots j =
     (if j < MAX_SLOTS then (if empty (slots j) then j else find_empty slots (Suc j)) else j)"
  by pat_completeness auto
termination
  by (relation "measure (\<lambda>(s, j). MAX_SLOTS - j)") auto

declare find_empty.simps [simp del]

text \<open>
  The body of \<^verbatim>\<open>if (!from_slots[i].empty) { ... }\<close> in \<^verbatim>\<open>moveTupleAcrossPages\<close>. The
  boolean is \<open>False\<close> when the body leaves the function with \<^verbatim>\<open>return false\<close>.
\<close>

definition move_slot ::
  "StorageManager \<Rightarrow> 16 word \<Rightarrow> 16 word \<Rightarrow> nat \<Rightarrow> fault + (bool \<times> StorageManager)" where
  "move_slot sm from_id to_id i =
     (let len = length (slot_array (page_at sm from_id) i);
          src = unat (offset (slot_array (page_at sm from_id) i));
          new_offset = metadata_size (page_at sm to_id) in
      if new_offset + unat len \<ge> PAGE_SIZE then Inr (False, sm)
      else if \<not> in_data_region new_offset (unat len)
      then Inl (OutsideDataRegion new_offset (unat len))
      else if \<not> in_data_region src (unat len)
      then Inl (OutsideDataRegion src (unat len))
      else
        (let sm1 = sm(to_id \<mapsto> (page_at sm to_id)
                  \<lparr> page_data := copy_bytes (page_data (page_at sm to_id)) new_offset
                                   (page_data (page_at sm from_id)) src (unat len) \<rparr>);
             sm2 = sm1(from_id \<mapsto> (page_at sm1 from_id)
                  \<lparr> slot_array := (slot_array (page_at sm1 from_id))
                      (i := (slot_array (page_at sm1 from_id) i)\<lparr> empty := True \<rparr>) \<rparr>);
             j = find_empty (slot_array (page_at sm2 to_id)) 0 in
         if j \<ge> MAX_SLOTS then Inl (SlotIndexOutOfRange j)
         else Inr (True,
           sm2(to_id \<mapsto> (page_at sm2 to_id)
              \<lparr> slot_array := (slot_array (page_at sm2 to_id))
                  (j := \<lparr> empty = False, offset = of_nat new_offset, length = len \<rparr>),
                metadata_size := metadata_size (page_at sm2 to_id) + unat len \<rparr>))))"

text \<open>The outer loop of \<^verbatim>\<open>moveTupleAcrossPages\<close> from source index \<open>i\<close> on.\<close>

function move_loop ::
  "StorageManager \<Rightarrow> 16 word \<Rightarrow> 16 word \<Rightarrow> nat \<Rightarrow> fault + (bool \<times> StorageManager)" where
  "move_loop sm from_id to_id i =
     (if i < MAX_SLOTS then
        (if \<not> empty (slot_array (page_at sm from_id) i) then
           (case move_slot sm from_id to_id i of
              Inl e \<Rightarrow> Inl e
            | Inr (ok, sm') \<Rightarrow>
                if \<not> ok then Inr (False, sm') else move_loop sm' from_id to_id (Suc i))
         else move_loop sm from_id to_id (Suc i))
      else Inr (True, sm))"
  by pat_completeness auto
termination
  by (relation "measure (\<lambda>(sm, f, t, i). MAX_SLOTS - i)") auto

declare move_loop.simps [simp del]

definition moveTupleAcrossPages ::
  "StorageManager \<Rightarrow> 16 word \<Rightarrow> 16 word \<Rightarrow> fault + (bool \<times> StorageManager)" where
  "moveTupleAcrossPages sm from_id to_id =
     (let sm0 = load (load sm from_id) to_id in
      case move_loop sm0 from_id to_id 0 of
        Inl e \<Rightarrow> Inl e
      | Inr (ok, sm1) \<Rightarrow>
          if \<not> ok then Inr (False, sm1)
          else (case compactPage (page_at sm1 from_id) of
                  Inl e \<Rightarrow> Inl e
                | Inr p \<Rightarrow> Inr (True, sm1(from_id \<mapsto> p))))"

section \<open>Sequences of page operations\<close>

text \<open>A caller's calls on one page, in order. The boolean that \<^verbatim>\<open>addTuple\<close> returns is
  dropped, as \<^verbatim>\<open>main\<close> drops it.\<close>

datatype page_op = Insert Tuple "nat \<Rightarrow> char" | Delete nat | Compact

fun apply_op :: "SlottedPage \<Rightarrow> page_op \<Rightarrow> fault + SlottedPage" where
  "apply_op p (Insert t beyond) =
     (case addTuple p t beyond of Inl e \<Rightarrow> Inl e | Inr (ok, p') \<Rightarrow> Inr p')"
| "apply_op p (Delete index) = Inr (deleteTuple p index)"
| "apply_op p Compact = compactPage p"

fun run_ops :: "SlottedPage \<Rightarrow> page_op list \<Rightarrow> fault + SlottedPage" where
  "run_ops p [] = Inr p"
| "run_ops p (x # xs) = (case apply_op p x of Inl e \<Rightarrow> Inl e | Inr p' \<Rightarrow> run_ops p' xs)"

section \<open>Serialisation round trip\<close>

lemma digit_char_props:
  assumes "d < 10"
  shows "isdigit (digit_char d)" "digit_val (digit_char d) = d"
    "digit_char d \<noteq> CHR ''-''" "digit_char d \<noteq> CHR ''+''" "\<not> isspace (digit_char d)"
proof -
  have oc: "(of_char (digit_char d) :: nat) = 48 + d"
    using assms by (simp add: digit_char_def)
  show "isdigit (digit_char d)" using assms by (simp add: isdigit_def oc)
  show "digit_val (digit_char d) = d" by (simp add: digit_val_def oc)
  have "(of_char (digit_char d) :: nat) \<noteq> of_char (CHR ''-'')" using assms by (simp add: oc)
  then show "digit_char d \<noteq> CHR ''-''" by metis
  have "(of_char (digit_char d) :: nat) \<noteq> of_char (CHR ''+'')" using assms by (simp add: oc)
  then show "digit_char d \<noteq> CHR ''+''" by metis
  have "(of_char (digit_char d) :: nat) \<noteq> of_char (CHR '' '')" using assms by (simp add: oc)
  then have "digit_char d \<noteq> CHR '' ''" by metis
  then show "\<not> isspace (digit_char d)" using assms by (simp add: isspace_def oc)
qed

lemma str_of_nat_digits: "\<forall>c \<in> set (str_of_nat n). isdigit c"
proof (induction n rule: str_of_nat.induct)
  case (1 n)
  show ?case
  proof (cases "n < 10")
    case True
    then show ?thesis by (subst str_of_nat.simps) (simp add: digit_char_props)
  next
    case False
    with 1 show ?thesis by (subst str_of_nat.simps) (simp add: digit_char_props)
  qed
qed

lemma str_of_nat_ne: "str_of_nat n \<noteq> []"
  by (subst str_of_nat.simps) simp

lemma digits_val_snoc: "digits_val (xs @ [c]) = 10 * digits_val xs + digit_val c"
  by (simp add: digits_val_def)

lemma digits_val_str_of_nat: "digits_val (str_of_nat n) = n"
proof (induction n rule: str_of_nat.induct)
  case (1 n)
  show ?case
  proof (cases "n < 10")
    case True
    then show ?thesis
      by (subst str_of_nat.simps) (simp add: digits_val_def digit_char_props)
  next
    case False
    with 1 show ?thesis
      by (subst str_of_nat.simps) (simp add: digits_val_snoc digit_char_props)
  qed
qed

lemma hd_str_of_nat: "isdigit (hd (str_of_nat n))"
  using str_of_nat_digits [of n] str_of_nat_ne [of n] by (cases "str_of_nat n") auto

lemma isdigit_not_special:
  "isdigit c \<Longrightarrow> \<not> isspace c \<and> c \<noteq> CHR ''-'' \<and> c \<noteq> CHR ''+''"
  by (auto simp: isdigit_def isspace_def)

lemma takeWhile_digits:
  assumes "r = [] \<or> \<not> isdigit (hd r)"
  shows "takeWhile isdigit (str_of_nat n @ r) = str_of_nat n"
    and "dropWhile isdigit (str_of_nat n @ r) = r"
  using assms str_of_nat_digits [of n]
  by (cases r; simp add: takeWhile_append2 dropWhile_append2)+

lemma extract_int_put_int:
  assumes "r = [] \<or> \<not> isdigit (hd r)"
  shows "extract_int (put_int v @ r) = Some (v, r)"
proof (cases "sint v < 0")
  case True
  have lo: "- (2 ^ 31) \<le> sint v" using sint_ge [of v] by simp
  have "int (nat (- sint v)) = - sint v" using True by simp
  with True lo show ?thesis
    using takeWhile_digits [OF assms, of "nat (- sint v)"] str_of_nat_ne [of "nat (- sint v)"]
    by (simp add: extract_int_def put_int_def Let_def isspace_def digits_val_str_of_nat)
next
  case False
  have hi: "sint v < 2 ^ 31" using sint_lt [of v] by simp
  obtain c cs where cs: "str_of_nat (nat (sint v)) = c # cs"
    using str_of_nat_ne [of "nat (sint v)"] by (cases "str_of_nat (nat (sint v))") auto
  have c: "isdigit c" using hd_str_of_nat [of "nat (sint v)"] cs by simp
  have dw: "dropWhile isspace (str_of_nat (nat (sint v)) @ r) = str_of_nat (nat (sint v)) @ r"
    using c isdigit_not_special [OF c] cs by simp
  have hd: "hd (str_of_nat (nat (sint v)) @ r) = c" using cs by simp
  from False hi show ?thesis
    using takeWhile_digits [OF assms, of "nat (sint v)"] str_of_nat_ne [of "nat (sint v)"]
      isdigit_not_special [OF c]
    by (simp add: extract_int_def put_int_def Let_def dw hd digits_val_str_of_nat)
qed

lemma deserialize_fields_space:
  "deserialize_fields (CHR '' '' # s) = deserialize_fields s"
  by (subst deserialize_fields.simps, subst (2) deserialize_fields.simps)
     (simp add: extract_int_def isspace_def)

lemma deserialize_serialize_fields:
  "deserialize_fields (serialize_fields fs @ r) = fs @ deserialize_fields r"
proof (induction fs)
  case Nil
  show ?case by simp
next
  case (Cons f fs)
  have "\<not> isdigit (CHR '' '')" by (simp add: isdigit_def)
  then have "extract_int (put_int (getValue f) @ CHR '' '' # serialize_fields fs @ r)
      = Some (getValue f, CHR '' '' # serialize_fields fs @ r)"
    by (intro extract_int_put_int) simp
  then show ?case
    using Cons by (subst deserialize_fields.simps) (simp add: deserialize_fields_space)
qed

lemma deserialize_fields_Nil: "deserialize_fields [] = []"
  by (subst deserialize_fields.simps) (simp add: extract_int_def)

text \<open>
  C6. For every record \<open>r\<close>, \<open>deserialize (serialize r)\<close> is a record with the same number
  of fields and the same field values as \<open>r\<close>: it is \<open>r\<close> itself.
\<close>

theorem deserialize_serialize_roundtrip:
  "deserialize (serialize r) = r
   \<and> List.length (fields (deserialize (serialize r))) = List.length (fields r)
   \<and> map getValue (fields (deserialize (serialize r))) = map getValue (fields r)"
  using deserialize_serialize_fields [of "fields r" "[]"]
  by (simp add: deserialize_def serialize_def deserialize_fields_Nil)

section \<open>Inserting a tuple\<close>

lemma addTuple_loop_skip:
  "i \<le> k \<Longrightarrow> k < MAX_SLOTS \<Longrightarrow> (\<forall>j. i \<le> j \<and> j < k \<longrightarrow> \<not> empty (slot_array p j))
   \<Longrightarrow> addTuple_loop p t b i = addTuple_loop p t b k"
proof (induction "k - i" arbitrary: i)
  case 0
  then show ?case by simp
next
  case (Suc d)
  then have lt: "i < k" and ne: "\<not> empty (slot_array p i)" by auto
  have "addTuple_loop p t b i = addTuple_loop p t b (Suc i)"
    using lt Suc.prems(2) ne by (subst addTuple_loop.simps) simp
  also have "\<dots> = addTuple_loop p t b k"
    using Suc.hyps(1) [of "Suc i"] Suc.hyps(2) Suc.prems lt by auto
  finally show ?case .
qed

lemma addTuple_first_empty:
  assumes "k < MAX_SLOTS" "empty (slot_array p k)" "\<forall>j<k. \<not> empty (slot_array p j)"
  shows "addTuple p t b = addTuple_at p t b k"
proof -
  have "addTuple_loop p t b 0 = addTuple_loop p t b k"
    using assms by (intro addTuple_loop_skip) auto
  also have "\<dots> = addTuple_at p t b k"
    using assms by (subst addTuple_loop.simps) simp
  finally show ?thesis by (simp add: addTuple_def)
qed

lemma addTuple_loop_full:
  "(\<forall>j. i \<le> j \<and> j < MAX_SLOTS \<longrightarrow> \<not> empty (slot_array p j))
   \<Longrightarrow> addTuple_loop p t b i = Inr (False, p)"
proof (induction p t b i rule: addTuple_loop.induct)
  case (1 p t b i)
  show ?case
  proof (cases "i < MAX_SLOTS")
    case True
    with 1 show ?thesis by (subst addTuple_loop.simps) auto
  next
    case False
    then show ?thesis by (subst addTuple_loop.simps) simp
  qed
qed

lemma addTuple_full:
  "\<forall>j<MAX_SLOTS. \<not> empty (slot_array p j) \<Longrightarrow> addTuple p t b = Inr (False, p)"
  by (simp add: addTuple_def addTuple_loop_full)

lemma first_empty_cases:
  "(\<forall>j<n::nat. \<not> empty (slots j)) \<or> (\<exists>k<n. empty (slots k) \<and> (\<forall>j<k. \<not> empty (slots j)))"
proof (induction n)
  case 0
  show ?case by simp
next
  case (Suc n)
  then show ?case
  proof
    assume a: "\<forall>j<n. \<not> empty (slots j)"
    show ?thesis
    proof (cases "empty (slots n)")
      case True
      with a show ?thesis by auto
    next
      case False
      with a have "\<forall>j<Suc n. \<not> empty (slots j)" by (auto simp: less_Suc_eq)
      then show ?thesis by blast
    qed
  next
    assume "\<exists>k<n. empty (slots k) \<and> (\<forall>j<k. \<not> empty (slots j))"
    then show ?thesis by (meson less_Suc_eq)
  qed
qed

lemma addTuple_cases:
  "addTuple p t b = Inr (False, p) \<or>
   (\<exists>k<MAX_SLOTS. empty (slot_array p k) \<and> (\<forall>j<k. \<not> empty (slot_array p j))
       \<and> addTuple p t b = addTuple_at p t b k)"
  using first_empty_cases [of MAX_SLOTS "slot_array p"] addTuple_full [of p t b]
    addTuple_first_empty [of _ p t b] by blast

lemma addTuple_at_False:
  "addTuple_at p t b k = Inr (False, p') \<Longrightarrow> p' = p"
  by (auto simp: addTuple_at_def Let_def split: if_splits)

lemma addTuple_False_unchanged:
  "addTuple p t b = Inr (False, p') \<Longrightarrow> p' = p"
proof -
  assume a: "addTuple p t b = Inr (False, p')"
  from addTuple_cases [of p t b] consider "addTuple p t b = Inr (False, p)"
    | k where "addTuple p t b = addTuple_at p t b k" by blast
  then show ?thesis
  proof cases
    case 1
    with a show ?thesis by simp
  next
    case 2
    with a show ?thesis by (simp add: addTuple_at_False)
  qed
qed

text \<open>
  C5. Let \<open>k\<close> be the first empty slot of the page. When the insertion offset plus the
  tuple's byte size exceeds \<open>PAGE_SIZE - 1\<close>, \<open>addTuple\<close> fails; it also fails when none of
  the \<open>MAX_SLOTS\<close> slots is empty (\<^verbatim>\<open>addTuple\<close> has one failure result, \<^verbatim>\<open>false\<close>, for both).
  Every failing \<open>addTuple\<close> returns the page as it was. When offset plus size is at most
  \<open>PAGE_SIZE - 1\<close>, so also when the tuple fills the space exactly up to \<open>PAGE_SIZE - 1\<close>,
  and the offset lies behind the directory, \<open>addTuple\<close> succeeds and activates slot \<open>k\<close>
  with that offset and size.
\<close>

theorem addTuple_failure_and_boundary:
  "(k < MAX_SLOTS \<and> empty (slot_array p k) \<and> (\<forall>j<k. \<not> empty (slot_array p j))
      \<and> insert_offset p k + getSize t > PAGE_SIZE - 1
      \<longrightarrow> addTuple p t b = Inr (False, p))
   \<and> ((\<forall>j<MAX_SLOTS. \<not> empty (slot_array p j)) \<longrightarrow> addTuple p t b = Inr (False, p))
   \<and> (addTuple p t b = Inr (False, p') \<longrightarrow> p' = p)
   \<and> (k < MAX_SLOTS \<and> empty (slot_array p k) \<and> (\<forall>j<k. \<not> empty (slot_array p j))
      \<and> insert_offset p k + getSize t \<le> PAGE_SIZE - 1
      \<and> directory_bytes \<le> insert_offset p k
      \<longrightarrow> (\<exists>p'. addTuple p t b = Inr (True, p')
            \<and> \<not> empty (slot_array p' k)
            \<and> unat (offset (slot_array p' k)) = insert_offset p k
            \<and> unat (length (slot_array p' k)) = getSize t))"
proof (intro conjI impI)
  assume a: "k < MAX_SLOTS \<and> empty (slot_array p k) \<and> (\<forall>j<k. \<not> empty (slot_array p j))
      \<and> insert_offset p k + getSize t > PAGE_SIZE - 1"
  then have "addTuple p t b = addTuple_at p t b k"
    by (intro addTuple_first_empty) auto
  with a show "addTuple p t b = Inr (False, p)"
    by (simp add: addTuple_at_def Let_def PAGE_SIZE_def)
next
  assume "\<forall>j<MAX_SLOTS. \<not> empty (slot_array p j)"
  then show "addTuple p t b = Inr (False, p)" by (rule addTuple_full)
next
  assume "addTuple p t b = Inr (False, p')"
  then show "p' = p" by (rule addTuple_False_unchanged)
next
  assume a: "k < MAX_SLOTS \<and> empty (slot_array p k) \<and> (\<forall>j<k. \<not> empty (slot_array p j))
      \<and> insert_offset p k + getSize t \<le> PAGE_SIZE - 1
      \<and> directory_bytes \<le> insert_offset p k"
  then have eq: "addTuple p t b = addTuple_at p t b k"
    by (intro addTuple_first_empty) auto
  from a have lt: "insert_offset p k + getSize t < PAGE_SIZE"
    by (simp add: PAGE_SIZE_def)
  then have small: "insert_offset p k < 2 ^ 16" "getSize t < 2 ^ 16"
    by (simp_all add: PAGE_SIZE_def)
  have u1: "unat (of_nat (insert_offset p k) :: 16 word) = insert_offset p k"
    using small(1) by (simp add: unat_of_nat)
  have u2: "unat (of_nat (getSize t) :: 16 word) = getSize t"
    using small(2) by (simp add: unat_of_nat)
  from a lt have reg: "in_data_region (insert_offset p k) (getSize t)"
    by (simp add: in_data_region_def)
  define q where "q = p\<lparr> page_data := copy_bytes (page_data p) (insert_offset p k)
                     (c_str (serialize t) b) 0 (getSize t),
                 slot_array := (slot_array p)
                   (k := \<lparr> empty = False, offset = of_nat (insert_offset p k),
                          length = of_nat (getSize t) \<rparr>) \<rparr>"
  have "addTuple_at p t b k = Inr (True, q)"
    unfolding addTuple_at_def Let_def q_def using lt reg by simp
  moreover have "\<not> empty (slot_array q k)" by (simp add: q_def)
  moreover have "unat (offset (slot_array q k)) = insert_offset p k"
    unfolding q_def using u1 by simp
  moreover have "unat (length (slot_array q k)) = getSize t"
    unfolding q_def using u2 by simp
  ultimately show "\<exists>p'. addTuple p t b = Inr (True, p')
            \<and> \<not> empty (slot_array p' k)
            \<and> unat (offset (slot_array p' k)) = insert_offset p k
            \<and> unat (length (slot_array p' k)) = getSize t"
    unfolding eq by blast
qed

theorem addTuple_failure_and_boundary_witness:
  "addTuple SlottedPage_init (Tuple (replicate 256 (Field 0))) zeroed = Inr (False, SlottedPage_init)
   \<and> addTuple (SlottedPage_init\<lparr> slot_array := (\<lambda>_. \<lparr> empty = False, offset = 3072, length = 0 \<rparr>) \<rparr>)
        (Tuple []) zeroed
      = Inr (False, SlottedPage_init\<lparr> slot_array := (\<lambda>_. \<lparr> empty = False, offset = 3072, length = 0 \<rparr>) \<rparr>)
   \<and> (\<exists>p'. addTuple SlottedPage_init (Tuple (replicate 255 (Field 0))) zeroed = Inr (True, p')
         \<and> \<not> empty (slot_array p' 0)
         \<and> unat (offset (slot_array p' 0)) = 3072 \<and> unat (length (slot_array p' 0)) = 1020)
   \<and> (\<exists>p'. addTuple (SlottedPage_init\<lparr> metadata_size := 3075 \<rparr>)
           (Tuple (replicate 255 (Field 0))) zeroed = Inr (True, p')
         \<and> unat (offset (slot_array p' 0)) + unat (length (slot_array p' 0)) = PAGE_SIZE - 1)"
proof (intro conjI)
  show "addTuple SlottedPage_init (Tuple (replicate 256 (Field 0))) zeroed = Inr (False, SlottedPage_init)"
    using addTuple_failure_and_boundary
      [of 0 SlottedPage_init "Tuple (replicate 256 (Field 0))" zeroed SlottedPage_init]
    by (simp add: SlottedPage_init_def MAX_SLOTS_def PAGE_SIZE_def insert_offset_def
        getSize_def sizeof_Slot_def)
  show "addTuple (SlottedPage_init\<lparr> slot_array := (\<lambda>_. \<lparr> empty = False, offset = 3072, length = 0 \<rparr>) \<rparr>)
        (Tuple []) zeroed
      = Inr (False, SlottedPage_init\<lparr> slot_array := (\<lambda>_. \<lparr> empty = False, offset = 3072, length = 0 \<rparr>) \<rparr>)"
    using addTuple_failure_and_boundary
      [of 0 "SlottedPage_init\<lparr> slot_array := (\<lambda>_. \<lparr> empty = False, offset = 3072, length = 0 \<rparr>) \<rparr>"
          "Tuple []" zeroed SlottedPage_init]
    by simp
  show "\<exists>p'. addTuple SlottedPage_init (Tuple (replicate 255 (Field 0))) zeroed = Inr (True, p')
         \<and> \<not> empty (slot_array p' 0)
         \<and> unat (offset (slot_array p' 0)) = 3072 \<and> unat (length (slot_array p' 0)) = 1020"
    using addTuple_failure_and_boundary
      [of 0 SlottedPage_init "Tuple (replicate 255 (Field 0))" zeroed SlottedPage_init]
    by (simp add: SlottedPage_init_def MAX_SLOTS_def PAGE_SIZE_def insert_offset_def
        getSize_def sizeof_Slot_def directory_bytes_def)
  show "\<exists>p'. addTuple (SlottedPage_init\<lparr> metadata_size := 3075 \<rparr>)
           (Tuple (replicate 255 (Field 0))) zeroed = Inr (True, p')
         \<and> unat (offset (slot_array p' 0)) + unat (length (slot_array p' 0)) = PAGE_SIZE - 1"
    using addTuple_failure_and_boundary
      [of 0 "SlottedPage_init\<lparr> metadata_size := 3075 \<rparr>" "Tuple (replicate 255 (Field 0))"
          zeroed SlottedPage_init]
    by (auto simp: SlottedPage_init_def MAX_SLOTS_def PAGE_SIZE_def insert_offset_def
        getSize_def sizeof_Slot_def directory_bytes_def)
qed

section \<open>Reading back what was inserted\<close>

lemma map_c_str_prefix: "map (c_str s b) [0..<List.length s] = s"
  by (rule nth_equalityI) (simp_all add: c_str_def)

lemma map_c_str_ge:
  assumes "List.length s \<le> n"
  shows "map (c_str s b) [0..<n]
         = s @ map (\<lambda>k. c_str s b (List.length s + k)) [0..<n - List.length s]"
proof -
  have "[0..<n] = [0..<List.length s] @ [List.length s..<n]"
    using assms by (metis le_add_diff_inverse upt_add_eq_append zero_le)
  moreover have "[List.length s..<n] = map (\<lambda>k. List.length s + k) [0..<n - List.length s]"
    using assms by (simp add: map_add_upt add.commute)
  ultimately show ?thesis
    by (simp add: map_c_str_prefix o_def del: upt_eq_Nil_conv)
qed

lemma map_c_str_le:
  assumes "n \<le> List.length s"
  shows "map (c_str s b) [0..<n] = take n s"
  using assms by (intro nth_equalityI) (simp_all add: c_str_def)

lemma map_c_str_tail:
  assumes "List.length s < n"
  shows "\<exists>r. map (c_str s b) [0..<n] = s @ CHR 0x00 # r"
proof -
  obtain m where m: "n - List.length s = Suc m"
    using assms by (metis Suc_diff_Suc)
  have "map (\<lambda>k. c_str s b (List.length s + k)) [0..<Suc m]
        = c_str s b (List.length s) # map (\<lambda>k. c_str s b (List.length s + k)) [1..<Suc m]"
    by (simp add: upt_rec [of 0] del: upt_Suc)
  then show ?thesis
    using map_c_str_ge [of s n b] assms m by (simp add: c_str_def del: upt_Suc)
qed

lemma map_copy_bytes_dst:
  "map (copy_bytes d off src 0 n) [off..<off + n] = map src [0..<n]"
  by (rule nth_equalityI) (simp_all add: copy_bytes_def)

lemma copy_bytes_outside:
  "a < off \<or> off + n \<le> a \<Longrightarrow> copy_bytes d off src s n a = d a"
  by (auto simp: copy_bytes_def)

lemma deserialize_fields_NUL: "deserialize_fields (CHR 0x00 # r) = []"
  by (subst deserialize_fields.simps) (simp add: extract_int_def isspace_def isdigit_def)

lemma deserialize_padded:
  assumes "bs = serialize t \<or> (\<exists>r. bs = serialize t @ CHR 0x00 # r)"
  shows "deserialize bs = t"
proof -
  have 1: "deserialize_fields (serialize_fields (fields t)) = fields t"
    using deserialize_serialize_fields [of "fields t" "[]"] by (simp add: deserialize_fields_Nil)
  have 2: "deserialize_fields (serialize_fields (fields t) @ CHR 0x00 # r) = fields t" for r
    using deserialize_serialize_fields [of "fields t" "CHR 0x00 # r"]
    by (simp add: deserialize_fields_NUL)
  from assms show ?thesis
    by (auto simp: deserialize_def serialize_def 1 2)
qed

lemma read_tuple_ok:
  "(\<exists>t. read_tuple p j = Inr t)
   \<longleftrightarrow> in_data_region (unat (offset (slot_array p j))) (unat (length (slot_array p j)))"
  by (simp add: read_tuple_def Let_def)

lemma print_loop_ok:
  "(\<exists>out. print_loop p i = Inr out) \<longleftrightarrow>
   (\<forall>j. i \<le> j \<and> j < MAX_SLOTS \<and> \<not> empty (slot_array p j) \<longrightarrow>
      in_data_region (unat (offset (slot_array p j))) (unat (length (slot_array p j))))"
proof (induction p i rule: print_loop.induct)
  case (1 p i)
  let ?R = "\<lambda>j. in_data_region (unat (offset (slot_array p j))) (unat (length (slot_array p j)))"
  show ?case
  proof (cases "i < MAX_SLOTS")
    case False
    then show ?thesis by (subst print_loop.simps) auto
  next
    case lt: True
    have range: "(\<forall>j. i \<le> j \<and> j < MAX_SLOTS \<and> \<not> empty (slot_array p j) \<longrightarrow> ?R j)
      \<longleftrightarrow> ((\<not> empty (slot_array p i) \<longrightarrow> ?R i)
           \<and> (\<forall>j. Suc i \<le> j \<and> j < MAX_SLOTS \<and> \<not> empty (slot_array p j) \<longrightarrow> ?R j))"
      using lt by (metis Suc_leI le_neq_implies_less Suc_leD le_refl)
    show ?thesis
    proof (cases "empty (slot_array p i)")
      case True
      with lt 1(2) show ?thesis
        unfolding range by (subst print_loop.simps) simp
    next
      case ne: False
      show ?thesis
      proof (cases "?R i")
        case False
        then have "\<exists>e. read_tuple p i = Inl e" by (simp add: read_tuple_def Let_def)
        with lt ne False show ?thesis
          unfolding range by (subst print_loop.simps) auto
      next
        case True
        then obtain t where t: "read_tuple p i = Inr t" by (auto simp: read_tuple_def Let_def)
        have "(\<exists>out. print_loop p i = Inr out) \<longleftrightarrow> (\<exists>out. print_loop p (Suc i) = Inr out)"
          using lt ne t by (subst print_loop.simps) (auto split: sum.splits)
        with 1(1) [OF lt _ t] lt ne True show ?thesis
          unfolding range by simp
      qed
    qed
  qed
qed

lemma print_loop_mem:
  "print_loop p i = Inr out \<Longrightarrow> i \<le> k \<Longrightarrow> k < MAX_SLOTS \<Longrightarrow> \<not> empty (slot_array p k)
   \<Longrightarrow> read_tuple p k = Inr t \<Longrightarrow> (k, t) \<in> set out"
proof (induction p i arbitrary: out rule: print_loop.induct)
  case (1 p i)
  from 1(4,5) have lt: "i < MAX_SLOTS" by simp
  show ?case
  proof (cases "empty (slot_array p i)")
    case True
    with 1(6) have "i \<noteq> k" by auto
    with 1(4) have le: "Suc i \<le> k" by simp
    from 1(3) lt True have "print_loop p (Suc i) = Inr out"
      by (subst (asm) print_loop.simps) simp
    from 1(2) [OF lt _ this le 1(5,6,7)] True show ?thesis by simp
  next
    case ne: False
    from 1(3) lt ne obtain t' out' where t': "read_tuple p i = Inr t'"
      and out': "print_loop p (Suc i) = Inr out'" and out: "out = (i, t') # out'"
      by (subst (asm) print_loop.simps) (auto split: sum.splits)
    show ?thesis
    proof (cases "i = k")
      case True
      with t' 1(7) out show ?thesis by simp
    next
      case False
      with 1(4) have le: "Suc i \<le> k" by simp
      from 1(1) [OF lt _ t' out' le 1(5,6,7)] ne out show ?thesis by simp
    qed
  qed
qed

lemma addTuple_True_cases:
  assumes "addTuple p t b = Inr (True, p')"
  shows "\<exists>k<MAX_SLOTS. empty (slot_array p k) \<and> (\<forall>j<k. \<not> empty (slot_array p j))
     \<and> insert_offset p k + getSize t < PAGE_SIZE
     \<and> in_data_region (insert_offset p k) (getSize t)
     \<and> p' = p\<lparr> page_data := copy_bytes (page_data p) (insert_offset p k)
                     (c_str (serialize t) b) 0 (getSize t),
                 slot_array := (slot_array p)
                   (k := \<lparr> empty = False, offset = of_nat (insert_offset p k),
                          length = of_nat (getSize t) \<rparr>) \<rparr>"
proof -
  from addTuple_cases [of p t b] assms obtain k where k: "k < MAX_SLOTS" "empty (slot_array p k)"
    "\<forall>j<k. \<not> empty (slot_array p j)" and eq: "addTuple p t b = addTuple_at p t b k"
    by auto
  from assms eq have "addTuple_at p t b k = Inr (True, p')" by simp
  then have "insert_offset p k + getSize t < PAGE_SIZE
     \<and> in_data_region (insert_offset p k) (getSize t)
     \<and> p' = p\<lparr> page_data := copy_bytes (page_data p) (insert_offset p k)
                     (c_str (serialize t) b) 0 (getSize t),
                 slot_array := (slot_array p)
                   (k := \<lparr> empty = False, offset = of_nat (insert_offset p k),
                          length = of_nat (getSize t) \<rparr>) \<rparr>"
    by (auto simp: addTuple_at_def Let_def split: if_splits)
  with k show ?thesis by blast
qed

lemma init_simps:
  "slot_array SlottedPage_init j = \<lparr> empty = True, offset = INVALID_VALUE, length = INVALID_VALUE \<rparr>"
  "metadata_size SlottedPage_init = 3072"
  "page_data SlottedPage_init = zeroed"
  by (simp_all add: SlottedPage_init_def sizeof_Slot_def MAX_SLOTS_def)

lemma addTuple_init:
  assumes "getSize t < 1024"
  shows "addTuple SlottedPage_init t b = Inr (True,
     SlottedPage_init\<lparr> page_data := copy_bytes zeroed 3072 (c_str (serialize t) b) 0 (getSize t),
        slot_array := (slot_array SlottedPage_init)
          (0 := \<lparr> empty = False, offset = 3072, length = of_nat (getSize t) \<rparr>) \<rparr>)"
proof -
  have "addTuple SlottedPage_init t b = addTuple_at SlottedPage_init t b 0"
    by (rule addTuple_first_empty) (simp_all add: MAX_SLOTS_def init_simps)
  also have "\<dots> = Inr (True,
     SlottedPage_init\<lparr> page_data := copy_bytes zeroed 3072 (c_str (serialize t) b) 0 (getSize t),
        slot_array := (slot_array SlottedPage_init)
          (0 := \<lparr> empty = False, offset = 3072, length = of_nat (getSize t) \<rparr>) \<rparr>)"
    using assms
    by (simp add: addTuple_at_def Let_def insert_offset_def init_simps PAGE_SIZE_def
        in_data_region_def directory_bytes_def sizeof_Slot_def MAX_SLOTS_def)
  finally show ?thesis .
qed

lemma digit_char_table:
  "digit_char 0 = CHR ''0''" "digit_char (Suc 0) = CHR ''1''" "digit_char 2 = CHR ''2''"
  "digit_char 3 = CHR ''3''" "digit_char 4 = CHR ''4''" "digit_char 5 = CHR ''5''"
  "digit_char 6 = CHR ''6''" "digit_char 7 = CHR ''7''" "digit_char 8 = CHR ''8''"
  "digit_char 9 = CHR ''9''"
  by code_simp+

lemmas serialize_eval =
  serialize_def put_int_def str_of_nat.simps digit_char_table

lemma print_init: "print SlottedPage_init = Inr []"
proof -
  have "print_loop SlottedPage_init i = Inr []" for i
  proof (induction "MAX_SLOTS - i" arbitrary: i)
    case 0
    then show ?case by (subst print_loop.simps) simp
  next
    case (Suc d)
    then have "print_loop SlottedPage_init (Suc i) = Inr []" by simp
    then show ?case by (subst print_loop.simps) (simp add: init_simps)
  qed
  then show ?thesis by (simp add: print_def)
qed

text \<open>
  C10. A successful \<open>addTuple\<close> activates the first empty slot \<open>k\<close> with length
  \<open>4 * field count\<close> and copies exactly that many bytes from the C string of the
  serialisation to the insertion offset, whatever the length of the serialisation: when
  the serialisation is at least that long, its first \<open>4 * field count\<close> characters are
  stored; when it is at most that long, reading slot \<open>k\<close> back gives the tuple inserted,
  every output of \<open>print\<close> holds the pair of \<open>k\<close> and that tuple, and \<open>print\<close> does give
  an output on the new page if it did on the old one.
\<close>

theorem addTuple_stores_getSize_bytes:
  assumes "addTuple p t b = Inr (True, p')"
  shows "\<exists>k<MAX_SLOTS. empty (slot_array p k) \<and> (\<forall>j<k. \<not> empty (slot_array p j))
     \<and> \<not> empty (slot_array p' k)
     \<and> unat (offset (slot_array p' k)) = insert_offset p k
     \<and> unat (length (slot_array p' k)) = 4 * List.length (fields t)
     \<and> (\<forall>j. j \<noteq> k \<longrightarrow> slot_array p' j = slot_array p j)
     \<and> map (page_data p') [insert_offset p k ..< insert_offset p k + 4 * List.length (fields t)]
         = map (c_str (serialize t) b) [0 ..< 4 * List.length (fields t)]
     \<and> (\<forall>a. a < insert_offset p k \<or> insert_offset p k + 4 * List.length (fields t) \<le> a
            \<longrightarrow> page_data p' a = page_data p a)
     \<and> (4 * List.length (fields t) \<le> List.length (serialize t) \<longrightarrow>
          map (page_data p') [insert_offset p k ..< insert_offset p k + 4 * List.length (fields t)]
            = take (4 * List.length (fields t)) (serialize t))
     \<and> (List.length (serialize t) \<le> 4 * List.length (fields t) \<longrightarrow>
          read_tuple p' k = Inr t
          \<and> (\<forall>out. print p' = Inr out \<longrightarrow> (k, t) \<in> set out)
          \<and> ((\<exists>out. print p = Inr out) \<longrightarrow> (\<exists>out. print p' = Inr out)))"
proof -
  let ?n = "4 * List.length (fields t)"
  from addTuple_True_cases [OF assms] obtain k where k: "k < MAX_SLOTS" "empty (slot_array p k)"
    "\<forall>j<k. \<not> empty (slot_array p j)"
    and lt: "insert_offset p k + getSize t < PAGE_SIZE"
    and reg: "in_data_region (insert_offset p k) (getSize t)"
    and p': "p' = p\<lparr> page_data := copy_bytes (page_data p) (insert_offset p k)
                     (c_str (serialize t) b) 0 (getSize t),
                 slot_array := (slot_array p)
                   (k := \<lparr> empty = False, offset = of_nat (insert_offset p k),
                          length = of_nat (getSize t) \<rparr>) \<rparr>"
    by blast
  let ?off = "insert_offset p k"
  have sz: "getSize t = ?n" by (simp add: getSize_def)
  from lt have small: "?off < 2 ^ 16" "getSize t < 2 ^ 16"
    by (simp_all add: PAGE_SIZE_def)
  have u1: "unat (of_nat ?off :: 16 word) = ?off"
    using small(1) by (simp add: unat_of_nat)
  have "unat (of_nat (getSize t) :: 16 word) = getSize t"
    using small(2) by (simp add: unat_of_nat)
  then have u2: "unat (of_nat (getSize t) :: 16 word) = ?n"
    by (simp only: sz)
  have s1: "\<not> empty (slot_array p' k)" by (simp add: p')
  have s2: "unat (offset (slot_array p' k)) = ?off" using u1 by (simp add: p')
  have s3: "unat (length (slot_array p' k)) = ?n" using u2 by (simp add: p')
  have s4: "\<forall>j. j \<noteq> k \<longrightarrow> slot_array p' j = slot_array p j" by (simp add: p')
  have d1: "map (page_data p') [?off ..< ?off + ?n] = map (c_str (serialize t) b) [0 ..< ?n]"
    using map_copy_bytes_dst [of "page_data p" ?off "c_str (serialize t) b" ?n]
    by (simp add: p' sz)
  have d2: "\<forall>a. a < ?off \<or> ?off + ?n \<le> a \<longrightarrow> page_data p' a = page_data p a"
    by (simp add: p' sz copy_bytes_outside)
  have d3: "map (page_data p') [?off ..< ?off + ?n] = take ?n (serialize t)"
    if "?n \<le> List.length (serialize t)"
    using that by (simp only: d1 map_c_str_le)
  have rd: "read_tuple p' k = Inr t" if le: "List.length (serialize t) \<le> ?n"
  proof -
    have "map (c_str (serialize t) b) [0 ..< ?n] = serialize t
          \<or> (\<exists>r. map (c_str (serialize t) b) [0 ..< ?n] = serialize t @ CHR 0x00 # r)"
    proof (cases "List.length (serialize t) = ?n")
      case True
      then show ?thesis using map_c_str_prefix [of "serialize t" b] by simp
    next
      case False
      with le have "List.length (serialize t) < ?n" by simp
      then show ?thesis using map_c_str_tail [of "serialize t" ?n b] by blast
    qed
    then have "deserialize (map (page_data p') [?off ..< ?off + ?n]) = t"
      unfolding d1 by (rule deserialize_padded)
    moreover have "in_data_region ?off ?n" using reg by (simp add: sz)
    ultimately show ?thesis
      unfolding read_tuple_def Let_def s2 s3 by simp
  qed
  have pm: "\<forall>out. print p' = Inr out \<longrightarrow> (k, t) \<in> set out"
    if le: "List.length (serialize t) \<le> ?n"
    using print_loop_mem [of p' 0 _ k t] k(1) s1 rd [OF le] by (simp add: print_def)
  have pk: "\<exists>out. print p' = Inr out" if ok: "\<exists>out. print p = Inr out"
  proof -
    from ok have old: "\<forall>j. j < MAX_SLOTS \<and> \<not> empty (slot_array p j) \<longrightarrow>
      in_data_region (unat (offset (slot_array p j))) (unat (length (slot_array p j)))"
      using print_loop_ok [of p 0] by (simp add: print_def)
    have "in_data_region (unat (offset (slot_array p' j))) (unat (length (slot_array p' j)))"
      if j: "j < MAX_SLOTS" "\<not> empty (slot_array p' j)" for j
    proof (cases "j = k")
      case True
      then show ?thesis using reg s2 s3 by (simp add: sz)
    next
      case False
      with s4 have "slot_array p' j = slot_array p j" by simp
      with j old show ?thesis by simp
    qed
    then show ?thesis using print_loop_ok [of p' 0] by (simp add: print_def)
  qed
  from k s1 s2 s3 s4 d1 d2 d3 rd pm pk show ?thesis by blast
qed

theorem addTuple_stores_getSize_bytes_witness:
  "(\<exists>p'. addTuple SlottedPage_init (Tuple [Field 10]) zeroed = Inr (True, p')
      \<and> unat (length (slot_array p' 0)) = 4
      \<and> read_tuple p' 0 = Inr (Tuple [Field 10])
      \<and> (\<exists>out. print p' = Inr out \<and> (0, Tuple [Field 10]) \<in> set out))
   \<and> (\<exists>p'. addTuple SlottedPage_init (Tuple [Field (- 12345)]) zeroed = Inr (True, p')
      \<and> unat (length (slot_array p' 0)) = 4
      \<and> map (page_data p') [3072 ..< 3076] = ''-123'')"
proof
  let ?t = "Tuple [Field 10]"
  have ser: "serialize ?t = ''10 ''" by (simp add: serialize_eval)
  obtain p' where p': "addTuple SlottedPage_init ?t zeroed = Inr (True, p')"
    using addTuple_init [of ?t zeroed] by (simp add: getSize_def)
  from addTuple_stores_getSize_bytes [OF p'] obtain k where
    k: "empty (slot_array SlottedPage_init k)" "\<forall>j<k. \<not> empty (slot_array SlottedPage_init j)"
    and len: "unat (length (slot_array p' k)) = 4 * List.length (fields ?t)"
    and rd: "List.length (serialize ?t) \<le> 4 * List.length (fields ?t) \<longrightarrow>
          read_tuple p' k = Inr ?t
          \<and> (\<forall>out. print p' = Inr out \<longrightarrow> (k, ?t) \<in> set out)
          \<and> ((\<exists>out. print SlottedPage_init = Inr out) \<longrightarrow> (\<exists>out. print p' = Inr out))"
    by blast
  have k0: "k = 0"
  proof (rule ccontr)
    assume "k \<noteq> 0"
    with k(2) have "\<not> empty (slot_array SlottedPage_init 0)" by simp
    then show False by (simp add: init_simps)
  qed
  from rd have r1: "read_tuple p' 0 = Inr ?t"
    and r2: "\<forall>out. print p' = Inr out \<longrightarrow> (0, ?t) \<in> set out"
    and r3: "\<exists>out. print p' = Inr out"
    by (simp_all add: ser k0 print_init)
  from r3 obtain out where out: "print p' = Inr out" by blast
  with r2 have mem: "(0, ?t) \<in> set out" by blast
  from len k0 have l4: "unat (length (slot_array p' 0)) = 4" by simp
  from p' l4 r1 out mem show "\<exists>p'. addTuple SlottedPage_init ?t zeroed = Inr (True, p')
      \<and> unat (length (slot_array p' 0)) = 4
      \<and> read_tuple p' 0 = Inr ?t
      \<and> (\<exists>out. print p' = Inr out \<and> (0, ?t) \<in> set out)"
    by (intro exI [of _ p'] conjI exI [of _ out])
next
  let ?t = "Tuple [Field (- 12345)]"
  have ser: "serialize ?t = ''-12345 ''" by (simp add: serialize_eval)
  obtain p' where p': "addTuple SlottedPage_init ?t zeroed = Inr (True, p')"
    using addTuple_init [of ?t zeroed] by (simp add: getSize_def)
  from addTuple_stores_getSize_bytes [OF p'] obtain k where
    k: "empty (slot_array SlottedPage_init k)" "\<forall>j<k. \<not> empty (slot_array SlottedPage_init j)"
    and len: "unat (length (slot_array p' k)) = 4 * List.length (fields ?t)"
    and off: "unat (offset (slot_array p' k)) = insert_offset SlottedPage_init k"
    and tk: "4 * List.length (fields ?t) \<le> List.length (serialize ?t) \<longrightarrow>
          map (page_data p') [insert_offset SlottedPage_init k ..<
               insert_offset SlottedPage_init k + 4 * List.length (fields ?t)]
            = take (4 * List.length (fields ?t)) (serialize ?t)"
    by blast
  have k0: "k = 0"
  proof (rule ccontr)
    assume "k \<noteq> 0"
    with k(2) have "\<not> empty (slot_array SlottedPage_init 0)" by simp
    then show False by (simp add: init_simps)
  qed
  have io: "insert_offset SlottedPage_init 0 = 3072"
    by (simp add: insert_offset_def init_simps)
  from tk have "map (page_data p') [3072 ..< 3076] = ''-123''"
    by (simp add: ser k0 io)
  then have m: "map (page_data p') [3072 ..< 3076] = ''-123''" .
  from len k0 have l4: "unat (length (slot_array p' 0)) = 4" by simp
  from p' l4 m show "\<exists>p'. addTuple SlottedPage_init ?t zeroed = Inr (True, p')
      \<and> unat (length (slot_array p' 0)) = 4
      \<and> map (page_data p') [3072 ..< 3076] = ''-123''"
    by (intro exI [of _ p'] conjI)
qed

section \<open>Moving records to a page without room\<close>

lemma move_loop_skip:
  "i \<le> k \<Longrightarrow> k \<le> MAX_SLOTS
   \<Longrightarrow> (\<forall>j. i \<le> j \<and> j < k \<longrightarrow> empty (slot_array (page_at sm f) j))
   \<Longrightarrow> move_loop sm f t i = move_loop sm f t k"
proof (induction "k - i" arbitrary: i)
  case 0
  then show ?case by simp
next
  case (Suc d)
  then have lt: "i < k" and e: "empty (slot_array (page_at sm f) i)" by auto
  have "move_loop sm f t i = move_loop sm f t (Suc i)"
    using lt Suc.prems(2) e by (subst move_loop.simps) simp
  also have "\<dots> = move_loop sm f t k"
    using Suc.hyps(1) [of "Suc i"] Suc.hyps(2) Suc.prems lt by auto
  finally show ?case .
qed

lemma move_slot_no_room:
  "metadata_size (page_at sm t) + unat (length (slot_array (page_at sm f) i)) \<ge> PAGE_SIZE
   \<Longrightarrow> move_slot sm f t i = Inr (False, sm)"
  by (simp add: move_slot_def Let_def)

lemma move_slot_False:
  "move_slot sm f t i = Inr (False, sm') \<Longrightarrow>
   sm' = sm \<and> metadata_size (page_at sm t) + unat (length (slot_array (page_at sm f) i)) \<ge> PAGE_SIZE"
  by (auto simp: move_slot_def Let_def split: if_splits)

lemma move_loop_no_room:
  assumes "i < MAX_SLOTS" "\<not> empty (slot_array (page_at sm f) i)"
    "metadata_size (page_at sm t) + unat (length (slot_array (page_at sm f) i)) \<ge> PAGE_SIZE"
  shows "move_loop sm f t i = Inr (False, sm)"
  using assms by (subst move_loop.simps) (simp add: move_slot_no_room)

lemma move_loop_False:
  "move_loop sm f t i = Inr (False, sm') \<Longrightarrow>
   \<exists>k. i \<le> k \<and> k < MAX_SLOTS \<and> \<not> empty (slot_array (page_at sm' f) k)
     \<and> metadata_size (page_at sm' t) + unat (length (slot_array (page_at sm' f) k)) \<ge> PAGE_SIZE"
proof (induction sm f t i rule: move_loop.induct)
  case (1 sm f t i)
  from 1(3) have lt: "i < MAX_SLOTS"
    by (subst (asm) move_loop.simps) (simp split: if_splits)
  show ?case
  proof (cases "empty (slot_array (page_at sm f) i)")
    case True
    with 1(3) lt have "move_loop sm f t (Suc i) = Inr (False, sm')"
      by (subst (asm) move_loop.simps) simp
    from 1(2) [OF lt _ this] True obtain k where "Suc i \<le> k" "k < MAX_SLOTS"
      "\<not> empty (slot_array (page_at sm' f) k)"
      "metadata_size (page_at sm' t) + unat (length (slot_array (page_at sm' f) k)) \<ge> PAGE_SIZE"
      by auto
    then show ?thesis by (intro exI [of _ k]) simp
  next
    case ne: False
    from 1(3) lt ne consider
        (abort) "move_slot sm f t i = Inr (False, sm')"
      | (go) sm1 where "move_slot sm f t i = Inr (True, sm1)"
          "move_loop sm1 f t (Suc i) = Inr (False, sm')"
      by (subst (asm) move_loop.simps) (auto split: sum.splits if_splits)
    then show ?thesis
    proof cases
      case abort
      from move_slot_False [OF abort] ne lt show ?thesis by (intro exI [of _ i]) simp
    next
      case go
      from 1(1) [OF lt ne go(1) refl _ go(2)] obtain k where "Suc i \<le> k" "k < MAX_SLOTS"
        "\<not> empty (slot_array (page_at sm' f) k)"
        "metadata_size (page_at sm' t) + unat (length (slot_array (page_at sm' f) k)) \<ge> PAGE_SIZE"
        by auto
      then show ?thesis by (intro exI [of _ k]) simp
    qed
  qed
qed

section \<open>What the operations leave alone\<close>

lemma compact_slot_frame:
  assumes "compact_slot p n i = Inr p'"
  shows "metadata_size p' = metadata_size p"
    and "\<forall>j. j \<noteq> i \<longrightarrow> slot_array p' j = slot_array p j"
    and "empty (slot_array p' i) = empty (slot_array p i)"
    and "length (slot_array p' i) = length (slot_array p i)"
  using assms by (auto simp: compact_slot_def Let_def split: if_splits)

lemma compact_loop_frame:
  "compact_loop p n i = Inr p' \<Longrightarrow>
   metadata_size p' = metadata_size p
   \<and> (\<forall>j. empty (slot_array p' j) = empty (slot_array p j)
          \<and> length (slot_array p' j) = length (slot_array p j))
   \<and> (\<forall>j. empty (slot_array p j) \<longrightarrow> slot_array p' j = slot_array p j)"
proof (induction "MAX_SLOTS - i" arbitrary: p n i)
  case 0
  then show ?case by (subst (asm) compact_loop.simps) simp
next
  case (Suc d)
  then have lt: "i < MAX_SLOTS" and d: "d = MAX_SLOTS - Suc i" by simp_all
  show ?case
  proof (cases "empty (slot_array p i)")
    case True
    with Suc.prems lt have "compact_loop p n (Suc i) = Inr p'"
      by (subst (asm) compact_loop.simps) simp
    from Suc.hyps(1) [OF d this] show ?thesis .
  next
    case ne: False
    from Suc.prems lt ne obtain p1 where p1: "compact_slot p n i = Inr p1"
      and rest: "compact_loop p1 (n + unat (length (slot_array p i))) (Suc i) = Inr p'"
      by (subst (asm) compact_loop.simps) (auto split: sum.splits)
    note f = compact_slot_frame [OF p1]
    note ih = Suc.hyps(1) [OF d rest]
    have same: "empty (slot_array p1 j) = empty (slot_array p j)
        \<and> length (slot_array p1 j) = length (slot_array p j)" for j
      using f(2,3,4) by (cases "j = i") auto
    have "slot_array p' j = slot_array p j" if "empty (slot_array p j)" for j
    proof -
      from that ne have "j \<noteq> i" by auto
      with f(2) have "slot_array p1 j = slot_array p j" by simp
      with ih that show ?thesis by simp
    qed
    with ih f(1) same show ?thesis by simp
  qed
qed

lemma compactPage_frame:
  "compactPage p = Inr p' \<Longrightarrow>
   metadata_size p' = metadata_size p
   \<and> (\<forall>j. empty (slot_array p' j) = empty (slot_array p j)
          \<and> length (slot_array p' j) = length (slot_array p j))
   \<and> (\<forall>j. empty (slot_array p j) \<longrightarrow> slot_array p' j = slot_array p j)"
  unfolding compactPage_def by (rule compact_loop_frame)

lemma addTuple_frame:
  assumes "addTuple p t b = Inr (ok, p')"
  shows "metadata_size p' = metadata_size p"
    and "\<forall>j. empty (slot_array p' j) \<longrightarrow> slot_array p' j = slot_array p j"
proof -
  have "metadata_size p' = metadata_size p
      \<and> (\<forall>j. empty (slot_array p' j) \<longrightarrow> slot_array p' j = slot_array p j)"
  proof (cases ok)
    case False
    with assms have "p' = p" by (simp add: addTuple_False_unchanged)
    then show ?thesis by simp
  next
    case True
    with assms have "addTuple p t b = Inr (True, p')" by simp
    from addTuple_True_cases [OF this] obtain k where
      "p' = p\<lparr> page_data := copy_bytes (page_data p) (insert_offset p k)
                     (c_str (serialize t) b) 0 (getSize t),
                 slot_array := (slot_array p)
                   (k := \<lparr> empty = False, offset = of_nat (insert_offset p k),
                          length = of_nat (getSize t) \<rparr>) \<rparr>"
      by blast
    then show ?thesis by simp
  qed
  then show "metadata_size p' = metadata_size p"
    and "\<forall>j. empty (slot_array p' j) \<longrightarrow> slot_array p' j = slot_array p j"
    by simp_all
qed

lemma deleteTuple_frame:
  "metadata_size (deleteTuple p index) = metadata_size p"
  "page_data (deleteTuple p index) = page_data p"
  "offset (slot_array (deleteTuple p index) j) = offset (slot_array p j)"
  "length (slot_array (deleteTuple p index) j) = length (slot_array p j)"
  "empty (slot_array (deleteTuple p index) j)
     = (empty (slot_array p j) \<or> (j = index \<and> index < MAX_SLOTS))"
  by (auto simp: deleteTuple_def)

lemma page_at_load: "page_at (load sm x) y = page_at sm y"
  by (auto simp: page_at_def load_def split: option.splits)

lemma page_at_upd: "page_at (sm(x \<mapsto> p)) y = (if y = x then p else page_at sm y)"
  by (simp add: page_at_def)

lemma move_slot_metadata:
  assumes "move_slot sm f t i = Inr (ok, sm')"
  shows "\<forall>x. x \<noteq> t \<longrightarrow> metadata_size (page_at sm' x) = metadata_size (page_at sm x)"
    and "ok \<longrightarrow> metadata_size (page_at sm' t)
           = metadata_size (page_at sm t) + unat (length (slot_array (page_at sm f) i))"
    and "\<not> ok \<longrightarrow> sm' = sm"
  using assms
  by (auto simp: move_slot_def Let_def page_at_upd split: if_splits)

lemma move_loop_metadata:
  "move_loop sm f t i = Inr (ok, sm') \<Longrightarrow>
   (\<forall>x. x \<noteq> t \<longrightarrow> metadata_size (page_at sm' x) = metadata_size (page_at sm x))
   \<and> metadata_size (page_at sm t) \<le> metadata_size (page_at sm' t)"
proof (induction "MAX_SLOTS - i" arbitrary: sm i)
  case 0
  then show ?case by (subst (asm) move_loop.simps) simp
next
  case (Suc d)
  then have lt: "i < MAX_SLOTS" and d: "d = MAX_SLOTS - Suc i" by simp_all
  show ?case
  proof (cases "empty (slot_array (page_at sm f) i)")
    case True
    with Suc.prems lt have "move_loop sm f t (Suc i) = Inr (ok, sm')"
      by (subst (asm) move_loop.simps) simp
    from Suc.hyps(1) [OF d this] show ?thesis .
  next
    case ne: False
    from Suc.prems lt ne consider
        (abort) "move_slot sm f t i = Inr (False, sm')"
      | (go) sm1 where "move_slot sm f t i = Inr (True, sm1)"
          "move_loop sm1 f t (Suc i) = Inr (ok, sm')"
      by (subst (asm) move_loop.simps) (auto split: sum.splits if_splits)
    then show ?thesis
    proof cases
      case abort
      from move_slot_metadata(3) [OF abort] show ?thesis by simp
    next
      case go
      from move_slot_metadata(1,2) [OF go(1)] Suc.hyps(1) [OF d go(2)]
      show ?thesis by simp
    qed
  qed
qed

section \<open>Running the loops on given pages\<close>

lemma find_empty_skip:
  "i \<le> k \<Longrightarrow> k \<le> MAX_SLOTS \<Longrightarrow> (\<forall>j. i \<le> j \<and> j < k \<longrightarrow> \<not> empty (slots j))
   \<Longrightarrow> find_empty slots i = find_empty slots k"
proof (induction "k - i" arbitrary: i)
  case 0
  then show ?case by simp
next
  case (Suc d)
  then have lt: "i < k" and ne: "\<not> empty (slots i)" by auto
  have "find_empty slots i = find_empty slots (Suc i)"
    using lt Suc.prems(2) ne by (subst find_empty.simps) simp
  also have "\<dots> = find_empty slots k"
    using Suc.hyps(1) [of "Suc i"] Suc.hyps(2) Suc.prems lt by auto
  finally show ?case .
qed

lemma find_empty_first:
  assumes "k < MAX_SLOTS" "empty (slots k)" "\<forall>j<k. \<not> empty (slots j)"
  shows "find_empty slots 0 = k"
proof -
  have "find_empty slots 0 = find_empty slots k"
    using assms by (intro find_empty_skip) auto
  also have "\<dots> = k" using assms by (subst find_empty.simps) simp
  finally show ?thesis .
qed

lemma find_empty_none:
  assumes "\<forall>j<MAX_SLOTS. \<not> empty (slots j)"
  shows "find_empty slots 0 = MAX_SLOTS"
proof -
  have "find_empty slots 0 = find_empty slots MAX_SLOTS"
    using assms by (intro find_empty_skip) auto
  also have "\<dots> = MAX_SLOTS" by (subst find_empty.simps) simp
  finally show ?thesis .
qed

lemma move_loop_all_empty:
  assumes "i \<le> MAX_SLOTS"
    "\<forall>j. i \<le> j \<and> j < MAX_SLOTS \<longrightarrow> empty (slot_array (page_at sm f) j)"
  shows "move_loop sm f t i = Inr (True, sm)"
proof -
  have "move_loop sm f t i = move_loop sm f t MAX_SLOTS"
    using assms by (intro move_loop_skip) auto
  also have "\<dots> = Inr (True, sm)" by (subst move_loop.simps) simp
  finally show ?thesis .
qed

lemma move_loop_last:
  assumes "i < MAX_SLOTS" "\<not> empty (slot_array (page_at sm f) i)"
    "move_slot sm f t i = Inr (True, sm1)"
    "\<forall>j. i < j \<and> j < MAX_SLOTS \<longrightarrow> empty (slot_array (page_at sm1 f) j)"
  shows "move_loop sm f t i = Inr (True, sm1)"
proof -
  have "move_loop sm f t i = move_loop sm1 f t (Suc i)"
    using assms(1,2,3) by (subst move_loop.simps) simp
  also have "\<dots> = Inr (True, sm1)"
    using assms(1,4) by (intro move_loop_all_empty) auto
  finally show ?thesis .
qed

lemma compact_loop_skip:
  "i \<le> k \<Longrightarrow> k \<le> MAX_SLOTS \<Longrightarrow> (\<forall>j. i \<le> j \<and> j < k \<longrightarrow> empty (slot_array p j))
   \<Longrightarrow> compact_loop p n i = compact_loop p n k"
proof (induction "k - i" arbitrary: i)
  case 0
  then show ?case by simp
next
  case (Suc d)
  then have lt: "i < k" and e: "empty (slot_array p i)" by auto
  have "compact_loop p n i = compact_loop p n (Suc i)"
    using lt Suc.prems(2) e by (subst compact_loop.simps) simp
  also have "\<dots> = compact_loop p n k"
    using Suc.hyps(1) [of "Suc i"] Suc.hyps(2) Suc.prems lt by auto
  finally show ?case .
qed

lemma compact_loop_all_empty:
  assumes "i \<le> MAX_SLOTS" "\<forall>j. i \<le> j \<and> j < MAX_SLOTS \<longrightarrow> empty (slot_array p j)"
  shows "compact_loop p n i = Inr p"
proof -
  have "compact_loop p n i = compact_loop p n MAX_SLOTS"
    using assms by (intro compact_loop_skip) auto
  also have "\<dots> = Inr p" by (subst compact_loop.simps) simp
  finally show ?thesis .
qed

lemma compact_loop_step:
  assumes "i < MAX_SLOTS" "\<not> empty (slot_array p i)" "compact_slot p n i = Inr p1"
  shows "compact_loop p n i = compact_loop p1 (n + unat (length (slot_array p i))) (Suc i)"
  using assms by (subst compact_loop.simps) simp

lemma run_ops_insert_init:
  assumes "getSize t < 1024"
  shows "run_ops SlottedPage_init [Insert t b] = Inr
     (SlottedPage_init\<lparr> page_data := copy_bytes zeroed 3072 (c_str (serialize t) b) 0 (getSize t),
        slot_array := (slot_array SlottedPage_init)
          (0 := \<lparr> empty = False, offset = 3072, length = of_nat (getSize t) \<rparr>) \<rparr>)"
  using addTuple_init [OF assms, of b] by simp

lemma compactPage_init: "compactPage SlottedPage_init = Inr SlottedPage_init"
  unfolding compactPage_def by (rule compact_loop_all_empty) (simp_all add: init_simps)

lemma moveTupleAcrossPages_metadata:
  assumes "moveTupleAcrossPages sm f d = Inr (ok, sm')"
  shows "(\<forall>x. x \<noteq> d \<longrightarrow> metadata_size (page_at sm' x) = metadata_size (page_at sm x))
       \<and> metadata_size (page_at sm d) \<le> metadata_size (page_at sm' d)"
proof -
  let ?sm0 = "load (load sm f) d"
  from assms obtain sm1 where ml: "move_loop ?sm0 f d 0 = Inr (ok, sm1)"
    and fin: "(\<not> ok \<and> sm' = sm1)
        \<or> (\<exists>q. ok \<and> compactPage (page_at sm1 f) = Inr q \<and> sm' = sm1(f \<mapsto> q))"
    by (auto simp: moveTupleAcrossPages_def Let_def split: sum.splits if_splits)
  have same: "metadata_size (page_at sm' x) = metadata_size (page_at sm1 x)" for x
    using fin compactPage_frame by (auto simp: page_at_upd)
  from move_loop_metadata [OF ml] show ?thesis
    by (simp add: same page_at_load)
qed

lemma run_ops_insert_delete:
  "run_ops SlottedPage_init [Insert (Tuple [Field 10]) zeroed, Delete 0] = Inr
     (SlottedPage_init\<lparr> page_data := copy_bytes zeroed 3072 (c_str (serialize (Tuple [Field 10])) zeroed) 0 4,
        slot_array := (slot_array SlottedPage_init)
          (0 := \<lparr> empty = True, offset = 3072, length = 4 \<rparr>) \<rparr>)"
  using addTuple_init [of "Tuple [Field 10]" zeroed]
  by (simp add: getSize_def deleteTuple_def MAX_SLOTS_def)

section \<open>The destination's \<open>metadata_size\<close>\<close>

lemma move_one_record_into_fresh_page:
  fixes d :: "nat \<Rightarrow> char" and len :: "16 word"
  defines "p \<equiv> SlottedPage_init\<lparr> page_data := d,
        slot_array := (slot_array SlottedPage_init)
          (0 := \<lparr> empty = False, offset = 3072, length = len \<rparr>) \<rparr>"
  assumes len: "unat len < 1024"
  shows "\<exists>sm'. moveTupleAcrossPages [0 \<mapsto> p] 0 1 = Inr (True, sm')
      \<and> metadata_size (page_at sm' 1) = 3072 + unat len
      \<and> slot_array (page_at sm' 1) 0 = \<lparr> empty = False, offset = 3072, length = len \<rparr>
      \<and> metadata_size (page_at sm' 0) = 3072
      \<and> (\<forall>j. empty (slot_array (page_at sm' 0) j))"
proof -
  define sm where "sm = load (load [0 \<mapsto> p] 0) 1"
  have pa: "page_at sm 0 = p" "page_at sm 1 = SlottedPage_init"
    by (simp_all add: sm_def load_def page_at_def)
  have sl: "slot_array p 0 = \<lparr> empty = False, offset = 3072, length = len \<rparr>"
    "\<And>j. j \<noteq> 0 \<Longrightarrow> empty (slot_array p j)" "metadata_size p = 3072"
    by (simp_all add: p_def init_simps)
  have fe: "find_empty (slot_array SlottedPage_init) 0 = 0"
    by (rule find_empty_first) (simp_all add: MAX_SLOTS_def init_simps)
  have "\<exists>sm1. move_slot sm 0 1 0 = Inr (True, sm1)
      \<and> (\<forall>j. empty (slot_array (page_at sm1 0) j))
      \<and> metadata_size (page_at sm1 1) = 3072 + unat len
      \<and> slot_array (page_at sm1 1) 0 = \<lparr> empty = False, offset = 3072, length = len \<rparr>
      \<and> metadata_size (page_at sm1 0) = 3072"
    using sl len
    by (simp add: move_slot_def Let_def pa page_at_upd sl init_simps fe PAGE_SIZE_def
        in_data_region_def directory_bytes_def sizeof_Slot_def MAX_SLOTS_def)
  then obtain sm1 where ms: "move_slot sm 0 1 0 = Inr (True, sm1)"
    and src1: "\<forall>j. empty (slot_array (page_at sm1 0) j)"
    and md1: "metadata_size (page_at sm1 1) = 3072 + unat len"
      "slot_array (page_at sm1 1) 0 = \<lparr> empty = False, offset = 3072, length = len \<rparr>"
      "metadata_size (page_at sm1 0) = 3072"
    by blast
  have ml: "move_loop sm 0 1 0 = Inr (True, sm1)"
    by (rule move_loop_last [OF _ _ ms]) (simp_all add: MAX_SLOTS_def pa sl src1)
  have cp: "compactPage (page_at sm1 0) = Inr (page_at sm1 0)"
    unfolding compactPage_def by (rule compact_loop_all_empty) (simp_all add: src1)
  have mt: "moveTupleAcrossPages [0 \<mapsto> p] 0 1 = Inr (True, sm1(0 \<mapsto> page_at sm1 0))"
    using ml cp by (simp add: moveTupleAcrossPages_def sm_def [symmetric])
  show ?thesis
    using mt md1 src1 by (intro exI [of _ "sm1(0 \<mapsto> page_at sm1 0)"]) (simp add: page_at_upd)
qed

lemma put_int_zero: "put_int 0 = ''0''"
  by (simp add: put_int_def str_of_nat.simps digit_char_table)

lemma length_serialize_zeros:
  "List.length (serialize (Tuple (replicate n (Field 0)))) = 2 * n"
  by (induction n) (simp_all add: serialize_def put_int_zero)

lemma read_tuple_init_insert:
  assumes "getSize t < 1024" "List.length (serialize t) < getSize t"
  shows "read_tuple (SlottedPage_init\<lparr>
       page_data := copy_bytes zeroed 3072 (c_str (serialize t) b) 0 (getSize t),
       slot_array := (slot_array SlottedPage_init)
         (0 := \<lparr> empty = False, offset = 3072, length = of_nat (getSize t) \<rparr>) \<rparr>) 0 = Inr t"
proof -
  let ?n = "getSize t"
  from assms(1) have u: "unat (of_nat ?n :: 16 word) = ?n" by (simp add: unat_of_nat)
  have m: "map (copy_bytes zeroed 3072 (c_str (serialize t) b) 0 ?n) [3072 ..< 3072 + ?n]
      = map (c_str (serialize t) b) [0 ..< ?n]"
    by (rule map_copy_bytes_dst)
  from map_c_str_tail [OF assms(2), of b]
  have "deserialize (map (c_str (serialize t) b) [0 ..< ?n]) = t"
    by (intro deserialize_padded) blast
  with assms(1) show ?thesis
    by (simp add: read_tuple_def Let_def u m in_data_region_def directory_bytes_def
        sizeof_Slot_def MAX_SLOTS_def PAGE_SIZE_def)
qed

text \<open>
  C7 at a failing input: a page holds one record of 516 bytes, which is moved into a fresh
  page. \<open>moveTupleAcrossPages\<close> adds the length to the destination's \<open>metadata_size\<close>,
  which is 3588 afterwards and not \<open>MAX_SLOTS * sizeof_Slot = 3072\<close>, while the record
  lies at 3072. \<open>compactPage\<close> starts from \<open>metadata_size\<close>: on that page it has to copy the
  516 bytes to 3588, past the end of the buffer of \<open>PAGE_SIZE\<close> bytes, the fault
  \<open>OutsideDataRegion 3588 516\<close>.
\<close>

theorem move_advances_metadata_size_and_compactPage_overruns:
  "(case run_ops SlottedPage_init [Insert (Tuple (replicate 129 (Field 0))) zeroed] of
      Inl e \<Rightarrow> Inl e
    | Inr p \<Rightarrow>
        (case moveTupleAcrossPages [0 \<mapsto> p] 0 1 of
           Inl e \<Rightarrow> Inl e
         | Inr (ok, sm') \<Rightarrow>
             Inr (ok, metadata_size (page_at sm' 1), slot_array (page_at sm' 1) 0,
                  compactPage (page_at sm' 1))))
     = Inr (True, 3588, \<lparr> empty = False, offset = 3072, length = 516 \<rparr>,
            Inl (OutsideDataRegion 3588 516))
   \<and> metadata_size (page_at [0 \<mapsto> SlottedPage_init] 1) = 3072
   \<and> MAX_SLOTS * sizeof_Slot = 3072
   \<and> PAGE_SIZE = 4096"
proof -
  let ?t = "Tuple (replicate 129 (Field 0))"
  let ?d = "copy_bytes zeroed 3072 (c_str (serialize ?t) zeroed) 0 516"
  let ?p = "SlottedPage_init\<lparr> page_data := ?d,
        slot_array := (slot_array SlottedPage_init)
          (0 := \<lparr> empty = False, offset = 3072, length = 516 \<rparr>) \<rparr>"
  have run: "run_ops SlottedPage_init [Insert ?t zeroed] = Inr ?p"
    using run_ops_insert_init [of ?t zeroed] by (simp add: getSize_def)
  from move_one_record_into_fresh_page [of 516 ?d] obtain sm' where
    mt: "moveTupleAcrossPages [0 \<mapsto> ?p] 0 1 = Inr (True, sm')"
    and md: "metadata_size (page_at sm' 1) = 3588"
    and s0: "slot_array (page_at sm' 1) 0 = \<lparr> empty = False, offset = 3072, length = 516 \<rparr>"
    by auto
  have "compact_slot (page_at sm' 1) 3588 0 = Inl (OutsideDataRegion 3588 516)"
    by (simp add: compact_slot_def Let_def s0 in_data_region_def PAGE_SIZE_def)
  then have "compact_loop (page_at sm' 1) 3588 0 = Inl (OutsideDataRegion 3588 516)"
    by (subst compact_loop.simps) (simp add: s0 MAX_SLOTS_def)
  then have cp: "compactPage (page_at sm' 1) = Inl (OutsideDataRegion 3588 516)"
    by (simp add: compactPage_def md)
  have "(case moveTupleAcrossPages [0 \<mapsto> ?p] 0 1 of
           Inl e \<Rightarrow> Inl e
         | Inr (ok, sm') \<Rightarrow>
             Inr (ok, metadata_size (page_at sm' 1), slot_array (page_at sm' 1) 0,
                  compactPage (page_at sm' 1)))
      = Inr (True, 3588, \<lparr> empty = False, offset = 3072, length = 516 \<rparr>,
            Inl (OutsideDataRegion 3588 516))"
    by (simp add: mt md s0 cp)
  moreover have "metadata_size (page_at [0 \<mapsto> SlottedPage_init] 1) = 3072"
    by (simp add: page_at_def init_simps)
  moreover have "MAX_SLOTS * sizeof_Slot = 3072"
    by (simp add: MAX_SLOTS_def sizeof_Slot_def)
  moreover have "PAGE_SIZE = 4096" by (simp add: PAGE_SIZE_def)
  ultimately show ?thesis unfolding run by simp
qed

text \<open>
  C4 at a failing input: the destination holds one record of 1016 bytes that \<open>addTuple\<close>
  placed at 3072, so 8 bytes are left before \<open>PAGE_SIZE\<close>; the source holds one record of
  20 bytes. \<open>moveTupleAcrossPages\<close> checks the room behind the destination's
  \<open>metadata_size\<close>, which \<open>addTuple\<close> has left at 3072: it returns true, empties the
  source slot and writes the 20 bytes at 3072. Slot 0 of the destination, which read as
  254 fields before, reads as the five fields of the source record afterwards.
\<close>

theorem move_overwrites_destination_filled_by_addTuple:
  "(case run_ops SlottedPage_init [Insert (Tuple (replicate 254 (Field 0))) zeroed] of
      Inl e \<Rightarrow> Inl e
    | Inr dst \<Rightarrow>
       (case run_ops SlottedPage_init
            [Insert (Tuple [Field 1, Field 2, Field 3, Field 4, Field 5]) zeroed] of
          Inl e \<Rightarrow> Inl e
        | Inr src \<Rightarrow>
           (case moveTupleAcrossPages [0 \<mapsto> src, 1 \<mapsto> dst] 0 1 of
              Inl e \<Rightarrow> Inl e
            | Inr (ok, sm') \<Rightarrow>
                Inr (slot_array src 0, slot_array dst 0, metadata_size dst, read_tuple dst 0,
                     ok, empty (slot_array (page_at sm' 0) 0),
                     slot_array (page_at sm' 1) 0, slot_array (page_at sm' 1) 1,
                     read_tuple (page_at sm' 1) 0))))
   = Inr (\<lparr> empty = False, offset = 3072, length = 20 \<rparr>,
          \<lparr> empty = False, offset = 3072, length = 1016 \<rparr>, 3072,
          Inr (Tuple (replicate 254 (Field 0))),
          True, True,
          \<lparr> empty = False, offset = 3072, length = 1016 \<rparr>,
          \<lparr> empty = False, offset = 3072, length = 20 \<rparr>,
          Inr (Tuple [Field 1, Field 2, Field 3, Field 4, Field 5]))
   \<and> PAGE_SIZE = 4096"
proof -
  let ?tz = "Tuple (replicate 254 (Field 0))"
  let ?t5 = "Tuple [Field 1, Field 2, Field 3, Field 4, Field 5]"
  define dd where "dd = copy_bytes zeroed 3072 (c_str (serialize ?tz) zeroed) 0 1016"
  define ds where "ds = copy_bytes zeroed 3072 (c_str (serialize ?t5) zeroed) 0 20"
  define dst where "dst = SlottedPage_init\<lparr> page_data := dd,
        slot_array := (slot_array SlottedPage_init)
          (0 := \<lparr> empty = False, offset = 3072, length = 1016 \<rparr>) \<rparr>"
  define src where "src = SlottedPage_init\<lparr> page_data := ds,
        slot_array := (slot_array SlottedPage_init)
          (0 := \<lparr> empty = False, offset = 3072, length = 20 \<rparr>) \<rparr>"
  have rd: "run_ops SlottedPage_init [Insert ?tz zeroed] = Inr dst"
    using run_ops_insert_init [of ?tz zeroed] by (simp add: getSize_def dst_def dd_def)
  have rs: "run_ops SlottedPage_init [Insert ?t5 zeroed] = Inr src"
    using run_ops_insert_init [of ?t5 zeroed] by (simp add: getSize_def src_def ds_def)
  have before: "read_tuple dst 0 = Inr ?tz"
    using read_tuple_init_insert [of ?tz zeroed]
    by (simp add: getSize_def length_serialize_zeros dst_def dd_def)
  define sm :: StorageManager where "sm = [0 \<mapsto> src, 1 \<mapsto> dst]"
  have ld: "load (load sm 0) 1 = sm" by (simp add: sm_def load_def)
  have pa: "page_at sm 0 = src" "page_at sm 1 = dst" by (simp_all add: sm_def page_at_def)
  have fe: "find_empty (slot_array dst) 0 = 1"
    by (rule find_empty_first) (simp_all add: dst_def MAX_SLOTS_def init_simps)
  have sd: "metadata_size dst = 3072" "metadata_size src = 3072"
    "slot_array src 0 = \<lparr> empty = False, offset = 3072, length = 20 \<rparr>"
    "slot_array dst 0 = \<lparr> empty = False, offset = 3072, length = 1016 \<rparr>"
    "page_data src = ds" "page_data dst = dd"
    by (simp_all add: dst_def src_def init_simps)
  define q where "q = dst\<lparr> page_data := copy_bytes dd 3072 ds 3072 20,
      slot_array := (slot_array dst)(1 := \<lparr> empty = False, offset = 3072, length = 20 \<rparr>),
      metadata_size := 3092 \<rparr>"
  have "\<exists>sm1. move_slot sm 0 1 0 = Inr (True, sm1)
      \<and> (\<forall>j. empty (slot_array (page_at sm1 0) j))
      \<and> page_at sm1 1 = q"
    using fe
    by (simp add: move_slot_def Let_def pa page_at_upd sd q_def PAGE_SIZE_def
        in_data_region_def directory_bytes_def sizeof_Slot_def MAX_SLOTS_def)
      (simp add: src_def init_simps)
  then obtain sm1 where ms: "move_slot sm 0 1 0 = Inr (True, sm1)"
    and src1: "\<forall>j. empty (slot_array (page_at sm1 0) j)"
    and q1: "page_at sm1 1 = q"
    by blast
  have ml: "move_loop sm 0 1 0 = Inr (True, sm1)"
    by (rule move_loop_last [OF _ _ ms]) (simp_all add: MAX_SLOTS_def pa sd src1)
  have cp: "compactPage (page_at sm1 0) = Inr (page_at sm1 0)"
    unfolding compactPage_def by (rule compact_loop_all_empty) (simp_all add: src1)
  have mt: "moveTupleAcrossPages sm 0 1 = Inr (True, sm1(0 \<mapsto> page_at sm1 0))"
    using ml cp by (simp add: moveTupleAcrossPages_def ld)
  have split: "[3072 ..< 4088] = [3072 ..< 3083] @ [3083 ..< 4088]"
    using upt_add_eq_append [of 3072 3083 1005] by (simp del: upt_rec_numeral)
  have first: "map (page_data q) [3072 ..< 3083] = serialize ?t5 @ [CHR 0x00]"
    by (simp add: q_def ds_def copy_bytes_def c_str_def serialize_eval zeroed_def)
  have "map (page_data q) [3072 ..< 4088]
      = serialize ?t5 @ CHR 0x00 # map (page_data q) [3083 ..< 4088]"
    unfolding split map_append first by simp
  then have "deserialize (map (page_data q) [3072 ..< 4088]) = ?t5"
    by (intro deserialize_padded) blast
  then have after: "read_tuple q 0 = Inr ?t5"
    by (simp add: read_tuple_def Let_def q_def sd in_data_region_def directory_bytes_def
        sizeof_Slot_def MAX_SLOTS_def PAGE_SIZE_def del: upt_rec_numeral)
  have qs: "slot_array q 0 = \<lparr> empty = False, offset = 3072, length = 1016 \<rparr>"
    "slot_array q 1 = \<lparr> empty = False, offset = 3072, length = 20 \<rparr>"
    by (simp_all add: q_def sd)
  have "(case moveTupleAcrossPages sm 0 1 of
              Inl e \<Rightarrow> Inl e
            | Inr (ok, sm') \<Rightarrow>
                Inr (slot_array src 0, slot_array dst 0, metadata_size dst, read_tuple dst 0,
                     ok, empty (slot_array (page_at sm' 0) 0),
                     slot_array (page_at sm' 1) 0, slot_array (page_at sm' 1) 1,
                     read_tuple (page_at sm' 1) 0))
   = Inr (\<lparr> empty = False, offset = 3072, length = 20 \<rparr>,
          \<lparr> empty = False, offset = 3072, length = 1016 \<rparr>, 3072,
          Inr ?tz, True, True,
          \<lparr> empty = False, offset = 3072, length = 1016 \<rparr>,
          \<lparr> empty = False, offset = 3072, length = 20 \<rparr>,
          Inr ?t5)"
    using src1 qs by (simp add: mt page_at_upd q1 after before sd)
  moreover have "PAGE_SIZE = 4096" by (simp add: PAGE_SIZE_def)
  ultimately show ?thesis unfolding rd rs sm_def by simp
qed

section \<open>Offset and length of an empty slot\<close>

text \<open>
  C8, as the claim states it, fails: \<open>deleteTuple\<close> sets the flag \<open>empty\<close> and nothing else.
  After one insertion into a fresh page and the deletion of slot 0, that slot is empty
  with offset 3072 and length 4, not \<open>INVALID_VALUE = 65535\<close>.
\<close>

theorem deleteTuple_keeps_offset_and_length_counterexample:
  "(case run_ops SlottedPage_init [Insert (Tuple [Field 10]) zeroed, Delete 0] of
      Inl e \<Rightarrow> Inl e
    | Inr p \<Rightarrow> Inr (slot_array p 0))
     = Inr \<lparr> empty = True, offset = 3072, length = 4 \<rparr>
   \<and> INVALID_VALUE = (65535 :: 16 word)"
  unfolding run_ops_insert_delete by (simp add: INVALID_VALUE_def)

text \<open>
  C8, amended. In a fresh page every slot is empty with offset and length
  \<open>INVALID_VALUE\<close>. \<open>deleteTuple\<close> changes no offset and no length: the slot it empties
  keeps the offset and length it had while occupied. \<open>addTuple\<close> and \<open>compactPage\<close> leave
  every slot that is empty afterwards exactly as it was before.
\<close>

theorem empty_slot_keeps_last_offset_and_length:
  "slot_array SlottedPage_init i
     = \<lparr> empty = True, offset = INVALID_VALUE, length = INVALID_VALUE \<rparr>
   \<and> offset (slot_array (deleteTuple p index) i) = offset (slot_array p i)
   \<and> length (slot_array (deleteTuple p index) i) = length (slot_array p i)
   \<and> (index < MAX_SLOTS \<longrightarrow> empty (slot_array (deleteTuple p index) index))
   \<and> (addTuple p t b = Inr (ok, p') \<and> empty (slot_array p' i)
        \<longrightarrow> slot_array p' i = slot_array p i)
   \<and> (compactPage p = Inr p' \<and> empty (slot_array p' i)
        \<longrightarrow> slot_array p' i = slot_array p i)"
proof (intro conjI impI)
  show "slot_array SlottedPage_init i
     = \<lparr> empty = True, offset = INVALID_VALUE, length = INVALID_VALUE \<rparr>"
    by (simp add: init_simps)
  show "offset (slot_array (deleteTuple p index) i) = offset (slot_array p i)"
    by (rule deleteTuple_frame)
  show "length (slot_array (deleteTuple p index) i) = length (slot_array p i)"
    by (rule deleteTuple_frame)
next
  assume "index < MAX_SLOTS"
  then show "empty (slot_array (deleteTuple p index) index)"
    by (simp add: deleteTuple_frame)
next
  assume "addTuple p t b = Inr (ok, p') \<and> empty (slot_array p' i)"
  then show "slot_array p' i = slot_array p i"
    using addTuple_frame(2) [of p t b ok p'] by blast
next
  assume a: "compactPage p = Inr p' \<and> empty (slot_array p' i)"
  then have "empty (slot_array p i)" using compactPage_frame [of p p'] by blast
  with a show "slot_array p' i = slot_array p i"
    using compactPage_frame [of p p'] by blast
qed

theorem empty_slot_keeps_last_offset_and_length_witness:
  "empty (slot_array (deleteTuple (SlottedPage_init\<lparr> slot_array := (slot_array SlottedPage_init)
          (0 := \<lparr> empty = False, offset = 3072, length = 4 \<rparr>) \<rparr>) 0) 0)
   \<and> offset (slot_array (deleteTuple (SlottedPage_init\<lparr> slot_array := (slot_array SlottedPage_init)
          (0 := \<lparr> empty = False, offset = 3072, length = 4 \<rparr>) \<rparr>) 0) 0) = 3072
   \<and> (\<exists>p'. addTuple SlottedPage_init (Tuple [Field 10]) zeroed = Inr (True, p')
         \<and> slot_array p' 1 = \<lparr> empty = True, offset = INVALID_VALUE, length = INVALID_VALUE \<rparr>)
   \<and> (\<exists>p'. compactPage SlottedPage_init = Inr p'
         \<and> slot_array p' 0 = \<lparr> empty = True, offset = INVALID_VALUE, length = INVALID_VALUE \<rparr>)"
proof -
  let ?p = "SlottedPage_init\<lparr> slot_array := (slot_array SlottedPage_init)
          (0 := \<lparr> empty = False, offset = 3072, length = 4 \<rparr>) \<rparr>"
  let ?t = "Tuple [Field 10]"
  note th0 = empty_slot_keeps_last_offset_and_length
  have lt: "(0::nat) < MAX_SLOTS" by (simp add: MAX_SLOTS_def)
  have c1: "empty (slot_array (deleteTuple ?p 0) 0)"
    using th0 [where p = ?p and index = 0] lt by blast
  have "offset (slot_array (deleteTuple ?p 0) 0) = offset (slot_array ?p 0)"
    using th0 [where p = ?p and index = 0 and i = 0] by blast
  then have c2: "offset (slot_array (deleteTuple ?p 0) 0) = 3072" by simp
  obtain q where q: "addTuple SlottedPage_init ?t zeroed = Inr (True, q)"
    and q1: "empty (slot_array q 1)"
    using addTuple_init [of ?t zeroed] by (simp add: getSize_def init_simps)
  have "slot_array q 1 = slot_array SlottedPage_init 1"
    using th0 [where i = 1 and p = SlottedPage_init and t = ?t and b = zeroed and ok = True
        and p' = q] q q1
    by blast
  with q have c3: "\<exists>p'. addTuple SlottedPage_init ?t zeroed = Inr (True, p')
         \<and> slot_array p' 1 = \<lparr> empty = True, offset = INVALID_VALUE, length = INVALID_VALUE \<rparr>"
    by (simp add: init_simps)
  have "compactPage SlottedPage_init = Inr SlottedPage_init \<and> empty (slot_array SlottedPage_init 0)
      \<longrightarrow> slot_array SlottedPage_init 0 = slot_array SlottedPage_init 0"
    using th0 [where i = 0 and p = SlottedPage_init and p' = SlottedPage_init] by blast
  with compactPage_init have c4: "\<exists>p'. compactPage SlottedPage_init = Inr p'
         \<and> slot_array p' 0 = \<lparr> empty = True, offset = INVALID_VALUE, length = INVALID_VALUE \<rparr>"
    by (simp add: init_simps)
  from c1 c2 c3 c4 show ?thesis by (intro conjI)
qed

section \<open>Compaction of a page laid out in order\<close>

text \<open>
  When the occupied slots lie behind \<open>metadata_size\<close> and inside the buffer, in slot order
  and without overlap (the layout that \<open>addTuple\<close> produces as long as it fills the slots
  in order), \<open>compactPage\<close> returns a page with the same empty flags on which every
  occupied slot reads as before, so that \<open>print\<close> shows the same lines.
\<close>

lemma compact_slot_effect:
  assumes reg: "directory_bytes \<le> n" "n \<le> unat (offset (slot_array q i))"
    "unat (offset (slot_array q i)) + unat (length (slot_array q i)) \<le> PAGE_SIZE"
  shows "\<exists>q1. compact_slot q n i = Inr q1
     \<and> metadata_size q1 = metadata_size q
     \<and> (\<forall>j. j \<noteq> i \<longrightarrow> slot_array q1 j = slot_array q j)
     \<and> empty (slot_array q1 i) = empty (slot_array q i)
     \<and> length (slot_array q1 i) = length (slot_array q i)
     \<and> unat (offset (slot_array q1 i)) = n
     \<and> (\<forall>a < unat (length (slot_array q i)).
           page_data q1 (n + a) = page_data q (unat (offset (slot_array q i)) + a))
     \<and> (\<forall>a. a < n \<or> n + unat (length (slot_array q i)) \<le> a \<longrightarrow> page_data q1 a = page_data q a)"
proof (cases "unat (offset (slot_array q i)) = n")
  case True
  then have "compact_slot q n i = Inr q" by (simp add: compact_slot_def)
  with True show ?thesis by simp
next
  case False
  let ?old = "unat (offset (slot_array q i))" and ?len = "unat (length (slot_array q i))"
  let ?q1 = "q\<lparr> page_data := copy_bytes (page_data q) n (page_data q) ?old ?len,
               slot_array := (slot_array q)(i := (slot_array q i)\<lparr> offset := of_nat n \<rparr>) \<rparr>"
  from reg have r1: "in_data_region n ?len" and r2: "in_data_region ?old ?len"
    by (simp_all add: in_data_region_def)
  from reg have "n < 2 ^ 16" by (simp add: PAGE_SIZE_def)
  then have u: "unat (of_nat n :: 16 word) = n" by (simp add: unat_of_nat)
  from False r1 r2 have "compact_slot q n i = Inr ?q1"
    by (simp add: compact_slot_def Let_def)
  moreover have "unat (offset (slot_array ?q1 i)) = n" using u by simp
  moreover have "\<forall>a < ?len. page_data ?q1 (n + a) = page_data q (?old + a)"
    by (simp add: copy_bytes_def)
  moreover have "\<forall>a. a < n \<or> n + ?len \<le> a \<longrightarrow> page_data ?q1 a = page_data q a"
    by (auto simp: copy_bytes_def)
  ultimately show ?thesis by (intro exI [of _ ?q1]) simp
qed

lemma compact_loop_in_order:
  fixes p :: SlottedPage
  assumes bnd: "\<forall>j<MAX_SLOTS. \<not> empty (slot_array p j) \<longrightarrow>
      unat (offset (slot_array p j)) + unat (length (slot_array p j)) \<le> PAGE_SIZE"
    and ord: "\<forall>j<MAX_SLOTS. \<forall>k<MAX_SLOTS. j < k \<and> \<not> empty (slot_array p j)
        \<and> \<not> empty (slot_array p k) \<longrightarrow>
      unat (offset (slot_array p j)) + unat (length (slot_array p j))
        \<le> unat (offset (slot_array p k))"
  shows "i \<le> MAX_SLOTS \<Longrightarrow> directory_bytes \<le> n \<Longrightarrow> n \<le> PAGE_SIZE \<Longrightarrow>
    (\<forall>j. empty (slot_array q j) = empty (slot_array p j)
        \<and> length (slot_array q j) = length (slot_array p j)) \<Longrightarrow>
    (\<forall>j. i \<le> j \<and> j < MAX_SLOTS \<and> \<not> empty (slot_array p j) \<longrightarrow>
        offset (slot_array q j) = offset (slot_array p j)
        \<and> n \<le> unat (offset (slot_array p j))
        \<and> (\<forall>a < unat (length (slot_array p j)).
              page_data q (unat (offset (slot_array p j)) + a)
                = page_data p (unat (offset (slot_array p j)) + a))) \<Longrightarrow>
    (\<forall>j. j < i \<and> \<not> empty (slot_array p j) \<longrightarrow>
        directory_bytes \<le> unat (offset (slot_array q j))
        \<and> unat (offset (slot_array q j)) + unat (length (slot_array p j)) \<le> n
        \<and> (\<forall>a < unat (length (slot_array p j)).
              page_data q (unat (offset (slot_array q j)) + a)
                = page_data p (unat (offset (slot_array p j)) + a))) \<Longrightarrow>
    \<exists>q'. compact_loop q n i = Inr q'
      \<and> metadata_size q' = metadata_size q
      \<and> (\<forall>j. empty (slot_array q' j) = empty (slot_array p j)
            \<and> length (slot_array q' j) = length (slot_array p j))
      \<and> (\<forall>j<MAX_SLOTS. \<not> empty (slot_array p j) \<longrightarrow>
            directory_bytes \<le> unat (offset (slot_array q' j))
            \<and> unat (offset (slot_array q' j)) + unat (length (slot_array p j)) \<le> PAGE_SIZE
            \<and> (\<forall>a < unat (length (slot_array p j)).
                  page_data q' (unat (offset (slot_array q' j)) + a)
                    = page_data p (unat (offset (slot_array p j)) + a)))"
proof (induction "MAX_SLOTS - i" arbitrary: q n i)
  case 0
  then have i: "i = MAX_SLOTS" by simp
  have "compact_loop q n i = Inr q" unfolding i by (subst compact_loop.simps) simp
  moreover have "\<forall>j<MAX_SLOTS. \<not> empty (slot_array p j) \<longrightarrow>
            directory_bytes \<le> unat (offset (slot_array q j))
            \<and> unat (offset (slot_array q j)) + unat (length (slot_array p j)) \<le> PAGE_SIZE
            \<and> (\<forall>a < unat (length (slot_array p j)).
                  page_data q (unat (offset (slot_array q j)) + a)
                    = page_data p (unat (offset (slot_array p j)) + a))"
    using "0.prems"(3,6) unfolding i by (meson le_trans)
  ultimately show ?case using "0.prems"(4) by simp
next
  case (Suc d)
  then have lt: "i < MAX_SLOTS" and d: "d = MAX_SLOTS - Suc i" and le: "Suc i \<le> MAX_SLOTS"
    by simp_all
  note same = Suc.prems(4) and later = Suc.prems(5) and earlier = Suc.prems(6)
  show ?case
  proof (cases "empty (slot_array p i)")
    case True
    then have "empty (slot_array q i)" using same by simp
    then have step: "compact_loop q n i = compact_loop q n (Suc i)"
      using lt by (subst compact_loop.simps) simp
    have later': "\<forall>j. Suc i \<le> j \<and> j < MAX_SLOTS \<and> \<not> empty (slot_array p j) \<longrightarrow>
        offset (slot_array q j) = offset (slot_array p j)
        \<and> n \<le> unat (offset (slot_array p j))
        \<and> (\<forall>a < unat (length (slot_array p j)).
              page_data q (unat (offset (slot_array p j)) + a)
                = page_data p (unat (offset (slot_array p j)) + a))"
      using later by (meson Suc_leD)
    have earlier': "\<forall>j. j < Suc i \<and> \<not> empty (slot_array p j) \<longrightarrow>
        directory_bytes \<le> unat (offset (slot_array q j))
        \<and> unat (offset (slot_array q j)) + unat (length (slot_array p j)) \<le> n
        \<and> (\<forall>a < unat (length (slot_array p j)).
              page_data q (unat (offset (slot_array q j)) + a)
                = page_data p (unat (offset (slot_array p j)) + a))"
      using earlier True by (metis less_antisym)
    from Suc.hyps(1) [OF d le Suc.prems(2,3) same later' earlier'] show ?thesis
      unfolding step .
  next
    case occ: False
    let ?O = "\<lambda>j. unat (offset (slot_array p j))" and ?L = "\<lambda>j. unat (length (slot_array p j))"
    from later lt occ have oi: "offset (slot_array q i) = offset (slot_array p i)"
      and ni: "n \<le> ?O i"
      and bi: "\<forall>a < ?L i. page_data q (?O i + a) = page_data p (?O i + a)"
      by auto
    from same have li: "length (slot_array q i) = length (slot_array p i)"
      and neq: "\<not> empty (slot_array q i)" using occ by simp_all
    from bnd lt occ have end_i: "?O i + ?L i \<le> PAGE_SIZE" by simp
    from compact_slot_effect [of n q i] Suc.prems(2) ni end_i oi li
    obtain q1 where q1: "compact_slot q n i = Inr q1"
      and md: "metadata_size q1 = metadata_size q"
      and other: "\<forall>j. j \<noteq> i \<longrightarrow> slot_array q1 j = slot_array q j"
      and e1: "empty (slot_array q1 i) = empty (slot_array q i)"
      and l1: "length (slot_array q1 i) = length (slot_array q i)"
      and o1: "unat (offset (slot_array q1 i)) = n"
      and moved: "\<forall>a < ?L i. page_data q1 (n + a) = page_data q (?O i + a)"
      and rest: "\<forall>a. a < n \<or> n + ?L i \<le> a \<longrightarrow> page_data q1 a = page_data q a"
      by auto
    have step: "compact_loop q n i = compact_loop q1 (n + ?L i) (Suc i)"
      using lt neq q1 li by (subst compact_loop.simps) simp
    have n1: "directory_bytes \<le> n + ?L i" using Suc.prems(2) by simp
    have n2: "n + ?L i \<le> PAGE_SIZE" using ni end_i by simp
    have same1: "\<forall>j. empty (slot_array q1 j) = empty (slot_array p j)
        \<and> length (slot_array q1 j) = length (slot_array p j)"
    proof
      fix j show "empty (slot_array q1 j) = empty (slot_array p j)
        \<and> length (slot_array q1 j) = length (slot_array p j)"
        using same other e1 l1 by (cases "j = i") simp_all
    qed
    have later1: "\<forall>j. Suc i \<le> j \<and> j < MAX_SLOTS \<and> \<not> empty (slot_array p j) \<longrightarrow>
        offset (slot_array q1 j) = offset (slot_array p j)
        \<and> n + ?L i \<le> ?O j
        \<and> (\<forall>a < ?L j. page_data q1 (?O j + a) = page_data p (?O j + a))"
    proof (intro allI impI)
      fix j assume j: "Suc i \<le> j \<and> j < MAX_SLOTS \<and> \<not> empty (slot_array p j)"
      then have ji: "j \<noteq> i" "i < j" "i \<le> j" by simp_all
      from later j ji(3) have oj: "offset (slot_array q j) = offset (slot_array p j)"
        and bj: "\<forall>a < ?L j. page_data q (?O j + a) = page_data p (?O j + a)"
        by simp_all
      from ord lt j ji(2) occ have g: "?O i + ?L i \<le> ?O j" by simp
      with ni have h: "n + ?L i \<le> ?O j" by simp
      have "page_data q1 (?O j + a) = page_data p (?O j + a)" if "a < ?L j" for a
      proof -
        from h have "n + ?L i \<le> ?O j + a" by simp
        with rest have "page_data q1 (?O j + a) = page_data q (?O j + a)" by simp
        with bj that show ?thesis by simp
      qed
      with other ji(1) oj h
      show "offset (slot_array q1 j) = offset (slot_array p j)
        \<and> n + ?L i \<le> ?O j
        \<and> (\<forall>a < ?L j. page_data q1 (?O j + a) = page_data p (?O j + a))"
        by simp
    qed
    have earlier1: "\<forall>j. j < Suc i \<and> \<not> empty (slot_array p j) \<longrightarrow>
        directory_bytes \<le> unat (offset (slot_array q1 j))
        \<and> unat (offset (slot_array q1 j)) + ?L j \<le> n + ?L i
        \<and> (\<forall>a < ?L j. page_data q1 (unat (offset (slot_array q1 j)) + a)
               = page_data p (?O j + a))"
    proof (intro allI impI)
      fix j assume j: "j < Suc i \<and> \<not> empty (slot_array p j)"
      show "directory_bytes \<le> unat (offset (slot_array q1 j))
        \<and> unat (offset (slot_array q1 j)) + ?L j \<le> n + ?L i
        \<and> (\<forall>a < ?L j. page_data q1 (unat (offset (slot_array q1 j)) + a)
               = page_data p (?O j + a))"
      proof (cases "j = i")
        case True
        have "page_data q1 (n + a) = page_data p (?O i + a)" if "a < ?L i" for a
          using moved bi that by simp
        with True o1 Suc.prems(2) show ?thesis by simp
      next
        case False
        with j have ji: "j < i" by simp
        from earlier ji j have a1: "directory_bytes \<le> unat (offset (slot_array q j))"
          and a2: "unat (offset (slot_array q j)) + ?L j \<le> n"
          and a3: "\<forall>a < ?L j. page_data q (unat (offset (slot_array q j)) + a)
               = page_data p (?O j + a)"
          by simp_all
        from other False have sj: "slot_array q1 j = slot_array q j" by simp
        have "page_data q1 (unat (offset (slot_array q j)) + a) = page_data p (?O j + a)"
          if "a < ?L j" for a
        proof -
          from a2 that have "unat (offset (slot_array q j)) + a < n" by simp
          with rest have "page_data q1 (unat (offset (slot_array q j)) + a)
              = page_data q (unat (offset (slot_array q j)) + a)" by simp
          with a3 that show ?thesis by simp
        qed
        with a1 a2 sj show ?thesis by simp
      qed
    qed
    from Suc.hyps(1) [OF d le n1 n2 same1 later1 earlier1] md show ?thesis
      unfolding step by simp
  qed
qed

lemma print_loop_unroll:
  "i < MAX_SLOTS \<Longrightarrow> print_loop p i =
     (if \<not> empty (slot_array p i) then
        (case read_tuple p i of
           Inl e \<Rightarrow> Inl e
         | Inr t \<Rightarrow>
             (case print_loop p (Suc i) of
                Inl e \<Rightarrow> Inl e
              | Inr out \<Rightarrow> Inr ((i, t) # out)))
      else print_loop p (Suc i))"
  by (subst print_loop.simps) simp

lemma print_loop_end: "\<not> i < MAX_SLOTS \<Longrightarrow> print_loop p i = Inr []"
  by (subst print_loop.simps) simp

lemma print_loop_cong:
  "(\<forall>j. i \<le> j \<and> j < MAX_SLOTS \<longrightarrow>
        empty (slot_array q j) = empty (slot_array p j)
        \<and> (\<not> empty (slot_array p j) \<longrightarrow> read_tuple q j = read_tuple p j))
   \<Longrightarrow> print_loop q i = print_loop p i"
proof (induction "MAX_SLOTS - i" arbitrary: i)
  case 0
  then show ?case by (simp add: print_loop_end)
next
  case (Suc d)
  then have lt: "i < MAX_SLOTS" by simp
  from Suc.prems lt have here: "empty (slot_array q i) = empty (slot_array p i)"
    "\<not> empty (slot_array p i) \<longrightarrow> read_tuple q i = read_tuple p i"
    by simp_all
  have "print_loop q (Suc i) = print_loop p (Suc i)"
    using Suc.hyps(1) [of "Suc i"] Suc.hyps(2) Suc.prems by simp
  with here show ?case
    by (simp add: print_loop_unroll [OF lt] split: sum.split)
qed

lemma compactPage_in_order_keeps_print:
  assumes dir: "directory_bytes \<le> metadata_size p" "metadata_size p \<le> PAGE_SIZE"
    and low: "\<forall>j<MAX_SLOTS. \<not> empty (slot_array p j) \<longrightarrow>
      metadata_size p \<le> unat (offset (slot_array p j))"
    and bnd: "\<forall>j<MAX_SLOTS. \<not> empty (slot_array p j) \<longrightarrow>
      unat (offset (slot_array p j)) + unat (length (slot_array p j)) \<le> PAGE_SIZE"
    and ord: "\<forall>j<MAX_SLOTS. \<forall>k<MAX_SLOTS. j < k \<and> \<not> empty (slot_array p j)
        \<and> \<not> empty (slot_array p k) \<longrightarrow>
      unat (offset (slot_array p j)) + unat (length (slot_array p j))
        \<le> unat (offset (slot_array p k))"
  shows "\<exists>p'. compactPage p = Inr p'
     \<and> (\<forall>j. empty (slot_array p' j) = empty (slot_array p j))
     \<and> (\<forall>j<MAX_SLOTS. \<not> empty (slot_array p j) \<longrightarrow> read_tuple p' j = read_tuple p j)
     \<and> print p' = print p"
proof -
  let ?O = "\<lambda>j. unat (offset (slot_array p j))" and ?L = "\<lambda>j. unat (length (slot_array p j))"
  have later: "\<forall>j. 0 \<le> j \<and> j < MAX_SLOTS \<and> \<not> empty (slot_array p j) \<longrightarrow>
        offset (slot_array p j) = offset (slot_array p j)
        \<and> metadata_size p \<le> ?O j
        \<and> (\<forall>a < ?L j. page_data p (?O j + a) = page_data p (?O j + a))"
    using low by simp
  have earlier: "\<forall>j. j < 0 \<and> \<not> empty (slot_array p j) \<longrightarrow>
        directory_bytes \<le> unat (offset (slot_array p j))
        \<and> unat (offset (slot_array p j)) + ?L j \<le> metadata_size p
        \<and> (\<forall>a < ?L j. page_data p (unat (offset (slot_array p j)) + a)
               = page_data p (?O j + a))"
    by simp
  from compact_loop_in_order [OF bnd ord _ dir(1) dir(2) _ later earlier]
  obtain p' where cp: "compact_loop p (metadata_size p) 0 = Inr p'"
    and same: "\<forall>j. empty (slot_array p' j) = empty (slot_array p j)
            \<and> length (slot_array p' j) = length (slot_array p j)"
    and fin: "\<forall>j<MAX_SLOTS. \<not> empty (slot_array p j) \<longrightarrow>
            directory_bytes \<le> unat (offset (slot_array p' j))
            \<and> unat (offset (slot_array p' j)) + ?L j \<le> PAGE_SIZE
            \<and> (\<forall>a < ?L j. page_data p' (unat (offset (slot_array p' j)) + a)
                    = page_data p (?O j + a))"
    by auto
  have rd: "read_tuple p' j = read_tuple p j" if j: "j < MAX_SLOTS" "\<not> empty (slot_array p j)" for j
  proof -
    let ?O' = "unat (offset (slot_array p' j))"
    from fin j have f: "directory_bytes \<le> ?O'" "?O' + ?L j \<le> PAGE_SIZE"
      "\<forall>a < ?L j. page_data p' (?O' + a) = page_data p (?O j + a)"
      by simp_all
    from low bnd dir(1) j have g: "directory_bytes \<le> ?O j" "?O j + ?L j \<le> PAGE_SIZE"
      by (simp_all add: le_trans [OF dir(1)])
    have "map (page_data p') [?O' ..< ?O' + ?L j] = map (page_data p) [?O j ..< ?O j + ?L j]"
      using f(3) by (intro nth_equalityI) simp_all
    moreover have "length (slot_array p' j) = length (slot_array p j)" using same by simp
    ultimately show ?thesis
      using f(1,2) g by (simp add: read_tuple_def Let_def in_data_region_def)
  qed
  have "print_loop p' 0 = print_loop p 0"
    using same rd by (intro print_loop_cong) simp
  with cp same rd show ?thesis
    by (simp add: compactPage_def print_def)
qed

section \<open>Reusing a deleted slot\<close>

lemma addTuple_eval:
  assumes "k < MAX_SLOTS" "empty (slot_array p k)" "\<forall>j<k. \<not> empty (slot_array p j)"
    and "insert_offset p k = off" "off + getSize t < PAGE_SIZE" "directory_bytes \<le> off"
  shows "addTuple p t b = Inr (True,
     p\<lparr> page_data := copy_bytes (page_data p) off (c_str (serialize t) b) 0 (getSize t),
        slot_array := (slot_array p)
          (k := \<lparr> empty = False, offset = of_nat off, length = of_nat (getSize t) \<rparr>) \<rparr>)"
proof -
  have "addTuple p t b = addTuple_at p t b k"
    using assms(1,2,3) by (rule addTuple_first_empty)
  also have "\<dots> = Inr (True,
     p\<lparr> page_data := copy_bytes (page_data p) off (c_str (serialize t) b) 0 (getSize t),
        slot_array := (slot_array p)
          (k := \<lparr> empty = False, offset = of_nat off, length = of_nat (getSize t) \<rparr>) \<rparr>)"
    using assms(4,5,6) by (simp add: addTuple_at_def Let_def in_data_region_def)
  finally show ?thesis .
qed

lemma consts_eval:
  "MAX_SLOTS = 512" "PAGE_SIZE = 4096" "directory_bytes = 3072"
  by (simp_all add: MAX_SLOTS_def PAGE_SIZE_def directory_bytes_def sizeof_Slot_def)

lemma run_ops_reuse_slot0:
  assumes "getSize t1 = 4" "getSize t2 = 4" "getSize t3 = n" "n < 1024"
  shows "run_ops SlottedPage_init [Insert t1 b, Insert t2 b, Delete 0, Insert t3 b] = Inr
    (SlottedPage_init\<lparr> page_data :=
         copy_bytes (copy_bytes (copy_bytes zeroed 3072 (c_str (serialize t1) b) 0 4)
                       3076 (c_str (serialize t2) b) 0 4)
           3072 (c_str (serialize t3) b) 0 n,
       slot_array := (slot_array SlottedPage_init)
         (0 := \<lparr> empty = False, offset = 3072, length = of_nat n \<rparr>,
          1 := \<lparr> empty = False, offset = 3076, length = 4 \<rparr>) \<rparr>)"
proof -
  let ?fresh = "\<lparr> empty = True, offset = INVALID_VALUE, length = INVALID_VALUE \<rparr>"
  define d1 where "d1 = copy_bytes zeroed 3072 (c_str (serialize t1) b) 0 4"
  define p1 where "p1 = SlottedPage_init\<lparr> page_data := d1,
     slot_array := (\<lambda>_. ?fresh)(0 := \<lparr> empty = False, offset = 3072, length = 4 \<rparr>) \<rparr>"
  have s1: "addTuple SlottedPage_init t1 b = Inr (True, p1)"
    using addTuple_init [of t1 b] assms(1)
    by (simp add: p1_def d1_def SlottedPage_init_def)
  define d2 where "d2 = copy_bytes d1 3076 (c_str (serialize t2) b) 0 4"
  define p2 where "p2 = SlottedPage_init\<lparr> page_data := d2,
     slot_array := (\<lambda>_. ?fresh)(0 := \<lparr> empty = False, offset = 3072, length = 4 \<rparr>,
                                 1 := \<lparr> empty = False, offset = 3076, length = 4 \<rparr>) \<rparr>"
  have s2: "addTuple p1 t2 b = Inr (True, p2)"
  proof -
    have "addTuple p1 t2 b = Inr (True,
       p1\<lparr> page_data := copy_bytes (page_data p1) 3076 (c_str (serialize t2) b) 0 (getSize t2),
          slot_array := (slot_array p1)
            (1 := \<lparr> empty = False, offset = of_nat 3076, length = of_nat (getSize t2) \<rparr>) \<rparr>)"
      by (rule addTuple_eval)
        (simp_all add: consts_eval p1_def insert_offset_def assms(2) INVALID_VALUE_def)
    then show ?thesis by (simp add: p1_def p2_def d2_def assms(2))
  qed
  define p2' where "p2' = SlottedPage_init\<lparr> page_data := d2,
     slot_array := (\<lambda>_. ?fresh)(0 := \<lparr> empty = True, offset = 3072, length = 4 \<rparr>,
                                 1 := \<lparr> empty = False, offset = 3076, length = 4 \<rparr>) \<rparr>"
  have s3: "deleteTuple p2 0 = p2'"
    by (simp add: deleteTuple_def p2_def p2'_def consts_eval fun_upd_twist)
  define p3 where "p3 = SlottedPage_init\<lparr> page_data := copy_bytes d2 3072 (c_str (serialize t3) b) 0 n,
     slot_array := (\<lambda>_. ?fresh)(0 := \<lparr> empty = False, offset = 3072, length = of_nat n \<rparr>,
                                 1 := \<lparr> empty = False, offset = 3076, length = 4 \<rparr>) \<rparr>"
  have s4: "addTuple p2' t3 b = Inr (True, p3)"
  proof -
    have "addTuple p2' t3 b = Inr (True,
       p2'\<lparr> page_data := copy_bytes (page_data p2') 3072 (c_str (serialize t3) b) 0 (getSize t3),
          slot_array := (slot_array p2')
            (0 := \<lparr> empty = False, offset = of_nat 3072, length = of_nat (getSize t3) \<rparr>) \<rparr>)"
      using assms(4)
      by (intro addTuple_eval)
        (simp_all add: consts_eval p2'_def insert_offset_def assms(3) init_simps)
    then show ?thesis by (simp add: p2'_def p3_def assms(3) fun_upd_twist)
  qed
  have "run_ops SlottedPage_init [Insert t1 b, Insert t2 b, Delete 0, Insert t3 b] = Inr p3"
    by (simp add: s1 s2 s3 s4)
  then show ?thesis by (simp add: p3_def d2_def d1_def SlottedPage_init_def)
qed

lemma c_str_eval:
  "c_str (c # s) b 0 = c"
  "c_str [] b 0 = CHR 0x00"
  "c_str (c # s) b (Suc k) = c_str s b k"
  "c_str [] b (Suc k) = b k"
  by (simp_all add: c_str_def)

lemma map_c_str_4:
  "map (c_str s b) [0..<4] = [c_str s b 0, c_str s b (Suc 0), c_str s b (Suc (Suc 0)),
     c_str s b (Suc (Suc (Suc 0)))]"
  by (simp add: upt_rec numeral_eq_Suc)

lemma print_loop_occupied:
  assumes "i < MAX_SLOTS" "\<not> empty (slot_array p i)" "read_tuple p i = Inr t"
    "j = Suc i" "print_loop p j = Inr out"
  shows "print_loop p i = Inr ((i, t) # out)"
  using assms by (subst print_loop.simps) simp

lemma print_loop_all_empty:
  assumes "\<forall>j. i \<le> j \<and> j < MAX_SLOTS \<longrightarrow> empty (slot_array p j)"
  shows "print_loop p i = Inr []"
  using assms
proof (induction "MAX_SLOTS - i" arbitrary: i)
  case 0
  then show ?case by (subst print_loop.simps) simp
next
  case (Suc d)
  then have "print_loop p (Suc i) = Inr []" by simp
  with Suc.prems show ?case by (subst print_loop.simps) simp
qed

lemma compact_loop_occupied:
  assumes "i < MAX_SLOTS" "\<not> empty (slot_array p i)" "compact_slot p n i = Inr p1"
    "j = Suc i" "m = n + unat (length (slot_array p i))"
  shows "compact_loop p n i = compact_loop p1 m j"
  using assms by (subst compact_loop.simps) simp

lemma deserialize_examples:
  "deserialize [CHR ''4'', CHR ''4'', CHR '' '', CHR ''5'', CHR ''5'', CHR '' '', CHR 0x00, CHR 0x00]
     = Tuple [Field 44, Field 55]"
  "deserialize [CHR ''5'', CHR '' '', CHR 0x00, CHR 0x00] = Tuple [Field 5]"
  "deserialize [CHR ''3'', CHR '' '', CHR 0x00, CHR 0x00] = Tuple [Field 3]"
  by code_simp+

lemma run_ops_append:
  "run_ops p (xs @ ys) = (case run_ops p xs of Inl e \<Rightarrow> Inl e | Inr p' \<Rightarrow> run_ops p' ys)"
  by (induction xs arbitrary: p) (auto split: sum.splits)

lemma copy_bytes_none: "copy_bytes d off src s 0 = d"
  by (rule ext) (auto simp: copy_bytes_def)

lemma run_ops_fill_slots:
  "n \<le> MAX_SLOTS \<Longrightarrow>
   run_ops SlottedPage_init (replicate n (Insert (Tuple []) b)) = Inr
     (SlottedPage_init\<lparr> slot_array := (\<lambda>i. if i < n
         then \<lparr> empty = False, offset = 3072, length = 0 \<rparr>
         else \<lparr> empty = True, offset = INVALID_VALUE, length = INVALID_VALUE \<rparr>) \<rparr>)"
proof (induction n)
  case 0
  show ?case by (simp add: SlottedPage_init_def)
next
  case (Suc n)
  let ?occ = "\<lparr> empty = False, offset = 3072, length = 0 \<rparr>"
  let ?fresh = "\<lparr> empty = True, offset = INVALID_VALUE, length = INVALID_VALUE \<rparr>"
  let ?p = "\<lambda>n. SlottedPage_init\<lparr> slot_array := (\<lambda>i. if i < n then ?occ else ?fresh) \<rparr>"
  from Suc have run: "run_ops SlottedPage_init (replicate n (Insert (Tuple []) b)) = Inr (?p n)"
    and lt: "n < MAX_SLOTS"
    by simp_all
  have off: "insert_offset (?p n) n = 3072"
    by (simp add: insert_offset_def init_simps)
  have "addTuple (?p n) (Tuple []) b = Inr (True,
     (?p n)\<lparr> page_data := copy_bytes (page_data (?p n)) 3072 (c_str (serialize (Tuple [])) b) 0
                   (getSize (Tuple [])),
        slot_array := (slot_array (?p n))
          (n := \<lparr> empty = False, offset = of_nat 3072, length = of_nat (getSize (Tuple [])) \<rparr>) \<rparr>)"
    using lt by (intro addTuple_eval off) (simp_all add: consts_eval getSize_def)
  moreover have "(\<lambda>i. if i < n then ?occ else ?fresh)(n := ?occ)
      = (\<lambda>i. if i < Suc n then ?occ else ?fresh)"
    by (rule ext) auto
  ultimately have step: "addTuple (?p n) (Tuple []) b = Inr (True, ?p (Suc n))"
    by (simp add: getSize_def copy_bytes_none)
  have "replicate (Suc n) (Insert (Tuple []) b)
      = replicate n (Insert (Tuple []) b) @ [Insert (Tuple []) b]"
    by (simp add: replicate_append_same)
  then show ?case
    by (simp only: run_ops_append run sum.case) (simp add: step)
qed

text \<open>
  C1 at a failing input: two one-field tuples are inserted into a fresh page, slot 0 is
  deleted, and a two-field tuple is inserted. \<open>addTuple\<close> takes slot 0 again and places the
  eight bytes at \<open>metadata_size = 3072\<close>, so that the occupied slots 0 and 1 cover the bytes
  \<open>[3072, 3080)\<close> and \<open>[3076, 3080)\<close>, which overlap.
\<close>

theorem addTuple_overlaps_after_reuse:
  "(case run_ops SlottedPage_init
      [Insert (Tuple [Field 1]) zeroed, Insert (Tuple [Field 2]) zeroed, Delete 0,
       Insert (Tuple [Field 3, Field 4]) zeroed] of
      Inl e \<Rightarrow> Inl e
    | Inr p \<Rightarrow> Inr (slot_array p 0, slot_array p 1))
   = Inr (\<lparr> empty = False, offset = 3072, length = 8 \<rparr>,
          \<lparr> empty = False, offset = 3076, length = 4 \<rparr>)"
  by (simp add: run_ops_reuse_slot0 [where n = 8] getSize_def del: run_ops.simps)

text \<open>
  C2 at a failing input: after two insertions the last record appended ends at 3080.
  Slot 0 is deleted and a third one-field tuple is inserted: \<open>addTuple\<close> writes its bytes at
  3072 and sets the offset of slot 0 to 3072, below the record of slot 1 at 3076.
\<close>

theorem addTuple_writes_below_last_record:
  "(case run_ops SlottedPage_init
      [Insert (Tuple [Field 1]) zeroed, Insert (Tuple [Field 2]) zeroed, Delete 0,
       Insert (Tuple [Field 3]) zeroed] of
      Inl e \<Rightarrow> Inl e
    | Inr p \<Rightarrow> Inr (slot_array p 0, slot_array p 1, map (page_data p) [3072 ..< 3076]))
   = Inr (\<lparr> empty = False, offset = 3072, length = 4 \<rparr>,
          \<lparr> empty = False, offset = 3076, length = 4 \<rparr>,
          [CHR ''3'', CHR '' '', CHR 0x00, CHR 0x00])"
proof -
  have "map (copy_bytes d 3072 (c_str (serialize (Tuple [Field 3])) zeroed) 0 4) [3072 ..< 3076]
      = [CHR ''3'', CHR '' '', CHR 0x00, CHR 0x00]" for d
    using map_copy_bytes_dst [of d 3072 "c_str (serialize (Tuple [Field 3])) zeroed" 4]
    by (simp add: map_c_str_4 serialize_eval c_str_eval zeroed_def del: upt_rec_numeral)
  then show ?thesis
    by (simp add: run_ops_reuse_slot0 [where n = 4] getSize_def del: run_ops.simps upt_rec_numeral)
qed

text \<open>
  C3 at a failing input: three one-field tuples are inserted, slot 0 is deleted and a
  two-field tuple is inserted, which overlaps slot 1. Before \<open>compactPage\<close> the page
  prints the tuple \<open>[3]\<close> in slot 2; \<open>compactPage\<close> moves slot 1 onto the bytes of slot 2
  and then moves those bytes on, and the page prints \<open>[5]\<close> in slot 2.
\<close>

theorem compactPage_loses_record_after_reuse:
  "(case run_ops SlottedPage_init
      [Insert (Tuple [Field 1]) zeroed, Insert (Tuple [Field 2]) zeroed,
       Insert (Tuple [Field 3]) zeroed, Delete 0,
       Insert (Tuple [Field 44, Field 55]) zeroed] of
      Inl e \<Rightarrow> Inl e
    | Inr p \<Rightarrow> print p)
   = Inr [(0, Tuple [Field 44, Field 55]), (1, Tuple [Field 5]), (2, Tuple [Field 3])]
   \<and> (case run_ops SlottedPage_init
      [Insert (Tuple [Field 1]) zeroed, Insert (Tuple [Field 2]) zeroed,
       Insert (Tuple [Field 3]) zeroed, Delete 0,
       Insert (Tuple [Field 44, Field 55]) zeroed, Compact] of
      Inl e \<Rightarrow> Inl e
    | Inr p \<Rightarrow> print p)
   = Inr [(0, Tuple [Field 44, Field 55]), (1, Tuple [Field 5]), (2, Tuple [Field 5])]"
proof -
  let ?tA = "Tuple [Field 1]" and ?tB = "Tuple [Field 2]" and ?tX = "Tuple [Field 3]"
    and ?tC = "Tuple [Field 44, Field 55]"
  let ?fresh = "\<lparr> empty = True, offset = INVALID_VALUE, length = INVALID_VALUE \<rparr>"
  let ?sA = "\<lparr> empty = False, offset = 3072, length = 4 \<rparr>"
  let ?sB = "\<lparr> empty = False, offset = 3076, length = 4 \<rparr>"
  let ?sX = "\<lparr> empty = False, offset = 3080, length = 4 \<rparr>"
  let ?sC = "\<lparr> empty = False, offset = 3072, length = 8 \<rparr>"
  define d1 where "d1 = copy_bytes zeroed 3072 (c_str (serialize ?tA) zeroed) 0 4"
  define d2 where "d2 = copy_bytes d1 3076 (c_str (serialize ?tB) zeroed) 0 4"
  define d3 where "d3 = copy_bytes d2 3080 (c_str (serialize ?tX) zeroed) 0 4"
  define d4 where "d4 = copy_bytes d3 3072 (c_str (serialize ?tC) zeroed) 0 8"
  define d5 where "d5 = copy_bytes d4 3080 d4 3076 4"
  define d6 where "d6 = copy_bytes d5 3084 d5 3080 4"
  define p1 where "p1 = SlottedPage_init\<lparr> page_data := d1,
     slot_array := (\<lambda>_. ?fresh)(0 := ?sA) \<rparr>"
  define p2 where "p2 = SlottedPage_init\<lparr> page_data := d2,
     slot_array := (\<lambda>_. ?fresh)(0 := ?sA, 1 := ?sB) \<rparr>"
  define p3 where "p3 = SlottedPage_init\<lparr> page_data := d3,
     slot_array := (\<lambda>_. ?fresh)(0 := ?sA, 1 := ?sB, 2 := ?sX) \<rparr>"
  define p3' where "p3' = SlottedPage_init\<lparr> page_data := d3,
     slot_array := (\<lambda>_. ?fresh)(0 := ?sA\<lparr> empty := True \<rparr>, 1 := ?sB, 2 := ?sX) \<rparr>"
  define p4 where "p4 = SlottedPage_init\<lparr> page_data := d4,
     slot_array := (\<lambda>_. ?fresh)(0 := ?sC, 1 := ?sB, 2 := ?sX) \<rparr>"
  define p5 where "p5 = SlottedPage_init\<lparr> page_data := d5,
     slot_array := (\<lambda>_. ?fresh)(0 := ?sC, 1 := ?sB\<lparr> offset := 3080 \<rparr>, 2 := ?sX) \<rparr>"
  define p6 where "p6 = SlottedPage_init\<lparr> page_data := d6,
     slot_array := (\<lambda>_. ?fresh)(0 := ?sC, 1 := ?sB\<lparr> offset := 3080 \<rparr>,
                                 2 := ?sX\<lparr> offset := 3084 \<rparr>) \<rparr>"
  have s1: "addTuple SlottedPage_init ?tA zeroed = Inr (True, p1)"
    using addTuple_init [of ?tA zeroed]
    by (simp add: getSize_def p1_def d1_def SlottedPage_init_def)
  have s2: "addTuple p1 ?tB zeroed = Inr (True, p2)"
  proof -
    have "addTuple p1 ?tB zeroed = Inr (True,
       p1\<lparr> page_data := copy_bytes (page_data p1) 3076 (c_str (serialize ?tB) zeroed) 0 (getSize ?tB),
          slot_array := (slot_array p1)
            (1 := \<lparr> empty = False, offset = of_nat 3076, length = of_nat (getSize ?tB) \<rparr>) \<rparr>)"
      by (rule addTuple_eval)
        (simp_all add: consts_eval p1_def insert_offset_def getSize_def INVALID_VALUE_def)
    then show ?thesis by (simp add: p1_def p2_def d2_def getSize_def)
  qed
  have s3: "addTuple p2 ?tX zeroed = Inr (True, p3)"
  proof -
    have "\<forall>j<2::nat. \<not> empty (slot_array p2 j)"
      by (auto simp: less_2_cases_iff p2_def)
    then have "addTuple p2 ?tX zeroed = Inr (True,
       p2\<lparr> page_data := copy_bytes (page_data p2) 3080 (c_str (serialize ?tX) zeroed) 0 (getSize ?tX),
          slot_array := (slot_array p2)
            (2 := \<lparr> empty = False, offset = of_nat 3080, length = of_nat (getSize ?tX) \<rparr>) \<rparr>)"
      by (intro addTuple_eval)
        (simp_all add: consts_eval p2_def insert_offset_def getSize_def INVALID_VALUE_def)
    then show ?thesis by (simp add: p2_def p3_def d3_def getSize_def)
  qed
  have s4: "deleteTuple p3 0 = p3'"
    by (simp add: deleteTuple_def p3_def p3'_def consts_eval fun_upd_twist)
  have s5: "addTuple p3' ?tC zeroed = Inr (True, p4)"
  proof -
    have "addTuple p3' ?tC zeroed = Inr (True,
       p3'\<lparr> page_data := copy_bytes (page_data p3') 3072 (c_str (serialize ?tC) zeroed) 0 (getSize ?tC),
          slot_array := (slot_array p3')
            (0 := \<lparr> empty = False, offset = of_nat 3072, length = of_nat (getSize ?tC) \<rparr>) \<rparr>)"
      by (rule addTuple_eval)
        (simp_all add: consts_eval p3'_def insert_offset_def getSize_def init_simps)
    then show ?thesis by (simp add: p3'_def p4_def d4_def getSize_def fun_upd_twist)
  qed
  have run5: "run_ops SlottedPage_init
      [Insert ?tA zeroed, Insert ?tB zeroed, Insert ?tX zeroed, Delete 0, Insert ?tC zeroed]
      = Inr p4"
    by (simp add: s1 s2 s3 s4 s5)
  have c0: "compact_slot p4 3072 0 = Inr p4"
    by (simp add: compact_slot_def p4_def)
  have c1: "compact_slot p4 3080 1 = Inr p5"
    by (simp add: compact_slot_def Let_def p4_def p5_def d5_def in_data_region_def consts_eval
        fun_upd_twist)
  have c2: "compact_slot p5 3084 2 = Inr p6"
    by (simp add: compact_slot_def Let_def p5_def p6_def d6_def in_data_region_def consts_eval
        fun_upd_twist)
  have tail: "\<forall>j. 3 \<le> j \<and> j < MAX_SLOTS \<longrightarrow> empty (slot_array p j)"
    if "p = p4 \<or> p = p6" for p
    using that by (auto simp: p4_def p6_def)
  have "compact_loop p4 3072 0 = compact_loop p4 3080 1"
    by (rule compact_loop_occupied [OF _ _ c0]) (simp_all add: consts_eval p4_def)
  also have "\<dots> = compact_loop p5 3084 2"
    by (rule compact_loop_occupied [OF _ _ c1]) (simp_all add: consts_eval p4_def)
  also have "\<dots> = compact_loop p6 3088 3"
    by (rule compact_loop_occupied [OF _ _ c2]) (simp_all add: consts_eval p5_def)
  also have "\<dots> = Inr p6"
    by (rule compact_loop_all_empty) (simp_all add: consts_eval tail)
  finally have cp: "compactPage p4 = Inr p6"
    by (simp add: compactPage_def p4_def init_simps)
  have run6: "run_ops SlottedPage_init
      [Insert ?tA zeroed, Insert ?tB zeroed, Insert ?tX zeroed, Delete 0, Insert ?tC zeroed,
       Compact] = Inr p6"
    by (simp add: s1 s2 s3 s4 s5 cp)
  note bytes = copy_bytes_def c_str_def serialize_eval zeroed_def
  have b4: "map d4 [3072 ..< 3080]
        = [CHR ''4'', CHR ''4'', CHR '' '', CHR ''5'', CHR ''5'', CHR '' '', CHR 0x00, CHR 0x00]"
      "map d4 [3076 ..< 3080] = [CHR ''5'', CHR '' '', CHR 0x00, CHR 0x00]"
      "map d4 [3080 ..< 3084] = [CHR ''3'', CHR '' '', CHR 0x00, CHR 0x00]"
    by (simp_all add: d4_def d3_def d2_def d1_def bytes)
  have b6: "map d6 [3072 ..< 3080]
        = [CHR ''4'', CHR ''4'', CHR '' '', CHR ''5'', CHR ''5'', CHR '' '', CHR 0x00, CHR 0x00]"
      "map d6 [3080 ..< 3084] = [CHR ''5'', CHR '' '', CHR 0x00, CHR 0x00]"
      "map d6 [3084 ..< 3088] = [CHR ''5'', CHR '' '', CHR 0x00, CHR 0x00]"
    by (simp_all add: d6_def d5_def d4_def d3_def d2_def d1_def bytes)
  have r4: "read_tuple p4 0 = Inr ?tC" "read_tuple p4 1 = Inr (Tuple [Field 5])"
      "read_tuple p4 2 = Inr ?tX"
    by (simp_all add: read_tuple_def Let_def p4_def in_data_region_def consts_eval b4
        deserialize_examples del: upt_rec_numeral)
  have r6: "read_tuple p6 0 = Inr ?tC" "read_tuple p6 1 = Inr (Tuple [Field 5])"
      "read_tuple p6 2 = Inr (Tuple [Field 5])"
    by (simp_all add: read_tuple_def Let_def p6_def in_data_region_def consts_eval b6
        deserialize_examples del: upt_rec_numeral)
  have pr4: "print p4 = Inr [(0, ?tC), (1, Tuple [Field 5]), (2, ?tX)]"
  proof -
    have l3: "print_loop p4 3 = Inr []"
      by (rule print_loop_all_empty) (simp add: tail)
    have l2: "print_loop p4 2 = Inr [(2, ?tX)]"
      by (rule print_loop_occupied [OF _ _ r4(3) _ l3]) (simp_all add: consts_eval p4_def)
    have l1: "print_loop p4 1 = Inr [(1, Tuple [Field 5]), (2, ?tX)]"
      by (rule print_loop_occupied [OF _ _ r4(2) _ l2]) (simp_all add: consts_eval p4_def)
    have "print_loop p4 0 = Inr [(0, ?tC), (1, Tuple [Field 5]), (2, ?tX)]"
      by (rule print_loop_occupied [OF _ _ r4(1) _ l1]) (simp_all add: consts_eval p4_def)
    then show ?thesis by (simp add: print_def)
  qed
  have pr6: "print p6 = Inr [(0, ?tC), (1, Tuple [Field 5]), (2, Tuple [Field 5])]"
  proof -
    have l3: "print_loop p6 3 = Inr []"
      by (rule print_loop_all_empty) (simp add: tail)
    have l2: "print_loop p6 2 = Inr [(2, Tuple [Field 5])]"
      by (rule print_loop_occupied [OF _ _ r6(3) _ l3]) (simp_all add: consts_eval p6_def)
    have l1: "print_loop p6 1 = Inr [(1, Tuple [Field 5]), (2, Tuple [Field 5])]"
      by (rule print_loop_occupied [OF _ _ r6(2) _ l2]) (simp_all add: consts_eval p6_def)
    have "print_loop p6 0 = Inr [(0, ?tC), (1, Tuple [Field 5]), (2, Tuple [Field 5])]"
      by (rule print_loop_occupied [OF _ _ r6(1) _ l1]) (simp_all add: consts_eval p6_def)
    then show ?thesis by (simp add: print_def)
  qed
  show ?thesis unfolding run5 run6 by (simp add: pr4 pr6)
qed

text \<open>
  C9 at a failing input: the destination has received 512 tuples without fields, so all
  its slots are occupied; the source holds one tuple. The search for a free destination
  slot ends with \<open>j = MAX_SLOTS\<close>, and \<open>moveTupleAcrossPages\<close> goes on to write
  \<^verbatim>\<open>to_slots[512]\<close>, behind the directory: the fault \<open>SlotIndexOutOfRange 512\<close>.
\<close>

theorem move_into_full_directory_writes_slot_512:
  "(case run_ops SlottedPage_init (replicate 512 (Insert (Tuple []) zeroed)) of
      Inl e \<Rightarrow> Inl e
    | Inr dst \<Rightarrow>
       (case run_ops SlottedPage_init [Insert (Tuple [Field 7]) zeroed] of
          Inl e \<Rightarrow> Inl e
        | Inr src \<Rightarrow>
           (case moveTupleAcrossPages [0 \<mapsto> src, 1 \<mapsto> dst] 0 1 of
              Inl e \<Rightarrow> Inl e
            | Inr r \<Rightarrow> Inr (fst r))))
   = Inl (SlotIndexOutOfRange 512)
   \<and> (case run_ops SlottedPage_init (replicate 512 (Insert (Tuple []) zeroed)) of
      Inl e \<Rightarrow> Inl e
    | Inr dst \<Rightarrow> Inr (find_empty (slot_array dst) 0))
   = Inr MAX_SLOTS
   \<and> MAX_SLOTS = 512"
proof -
  let ?occ = "\<lparr> empty = False, offset = 3072, length = 0 \<rparr>"
  let ?fresh = "\<lparr> empty = True, offset = INVALID_VALUE, length = INVALID_VALUE \<rparr>"
  define dst where "dst = SlottedPage_init\<lparr> slot_array := (\<lambda>i. if i < 512 then ?occ else ?fresh) \<rparr>"
  define d where "d = copy_bytes zeroed 3072 (c_str (serialize (Tuple [Field 7])) zeroed) 0 4"
  define src where "src = SlottedPage_init\<lparr> page_data := d,
        slot_array := (slot_array SlottedPage_init)
          (0 := \<lparr> empty = False, offset = 3072, length = 4 \<rparr>) \<rparr>"
  have rd: "run_ops SlottedPage_init (replicate 512 (Insert (Tuple []) zeroed)) = Inr dst"
    using run_ops_fill_slots [of 512 zeroed] by (simp add: consts_eval dst_def)
  have rs: "run_ops SlottedPage_init [Insert (Tuple [Field 7]) zeroed] = Inr src"
    using run_ops_insert_init [of "Tuple [Field 7]" zeroed] by (simp add: getSize_def src_def d_def)
  define sm :: StorageManager where "sm = [0 \<mapsto> src, 1 \<mapsto> dst]"
  have ld: "load (load sm 0) 1 = sm" by (simp add: sm_def load_def)
  have pa: "page_at sm 0 = src" "page_at sm 1 = dst" by (simp_all add: sm_def page_at_def)
  have fe: "find_empty (slot_array dst) 0 = MAX_SLOTS"
    by (rule find_empty_none) (simp add: dst_def consts_eval)
  have md: "metadata_size dst = 3072" by (simp add: dst_def init_simps)
  have "move_slot sm 0 1 0 = Inl (SlotIndexOutOfRange 512)"
    by (simp add: move_slot_def Let_def pa page_at_upd fe md src_def init_simps
        in_data_region_def consts_eval)
  then have "move_loop sm 0 1 0 = Inl (SlotIndexOutOfRange 512)"
    by (subst move_loop.simps) (simp add: consts_eval pa src_def)
  then have "moveTupleAcrossPages sm 0 1 = Inl (SlotIndexOutOfRange 512)"
    by (simp add: moveTupleAcrossPages_def ld)
  then show ?thesis
    unfolding rd rs by (simp add: sm_def fe consts_eval)
qed

end
